theory Spec2Isabelle
  imports Main "HOL-Library.Word"
begin

section \<open>Data model of memory_pool.hpp\<close>

text \<open>
  \<^verbatim>\<open>typedef uint32_t index_t;\<close>  Indices, capacities and the cached counters of the
  pools are 32-bit unsigned words; arithmetic on them wraps.

  Addresses (\<^verbatim>\<open>T *\<close>, \<^verbatim>\<open>MemoryPoolBlock<T> *\<close>) are natural numbers, the null pointer is
  address 0.  \<^verbatim>\<open>size_t\<close> values are natural numbers as well.
\<close>

type_synonym index_t = "32 word"
type_synonym addr = nat

text \<open>
  What is fixed when the header is compiled: of the template parameter \<^verbatim>\<open>T\<close> the
  code uses \<^verbatim>\<open>sizeof(T)\<close> and \<^verbatim>\<open>alignof(T)\<close>; and \<^verbatim>\<open>assert\<close> expands to nothing when
  \<^verbatim>\<open>NDEBUG\<close> is defined.
\<close>

record config =
  sizeof_T :: nat
  alignof_T :: nat
  NDEBUG :: bool

text \<open>
  The ways a call can end other than by returning: a failed \<^verbatim>\<open>assert\<close> aborts the
  program, a read or write through a null pointer, and an access outside an array.
\<close>

datatype error = AssertionFailed | NullDereference | OutOfBounds

text \<open>\<^verbatim>\<open>assert(c)\<close> aborts: assertions are compiled in and \<open>c\<close> is false.\<close>

definition assert_fails :: "config \<Rightarrow> bool \<Rightarrow> bool" where
  "assert_fails C c = (\<not> NDEBUG C \<and> \<not> c)"

text \<open>
  \<^verbatim>\<open>class MemoryPoolBlock\<close>: the two data members (\<^verbatim>\<open>free_head_index_\<close> and
  \<^verbatim>\<open>entries_per_block_\<close>; a name cannot end in an underscore here), the address of
  the object itself (\<^verbatim>\<open>this\<close>), and the two arrays that follow the header in the same
  allocation: the index array at \<^verbatim>\<open>indices_begin()\<close> and the entry storage at
  \<^verbatim>\<open>memory_begin()\<close>.  An entry of the storage is \<open>Some v\<close> while an object
  constructed from \<open>v\<close> lives there and \<open>None\<close> while it holds no object.
\<close>

record 'a MemoryPoolBlock =
  free_head_index :: index_t
  entries_per_block :: index_t
  this_ptr :: addr
  indices :: "index_t list"
  memory :: "'a option list"

text \<open>\<^verbatim>\<open>struct MemoryPoolStats\<close>\<close>

record MemoryPoolStats =
  block_count :: nat
  allocation_count :: nat

text \<open>\<^verbatim>\<open>const uint32_t MIN_BLOCK_ALIGN = 64;\<close>\<close>

definition MIN_BLOCK_ALIGN :: nat where
  "MIN_BLOCK_ALIGN = 64"

text \<open>\<^verbatim>\<open>sizeof(index_t)\<close>\<close>

definition sizeof_index_t :: nat where
  "sizeof_index_t = 4"

text \<open>
  \<^verbatim>\<open>sizeof(MemoryPoolBlock<T>)\<close>: the class has two \<^verbatim>\<open>index_t\<close> data members and no
  virtual member, so the header is 8 bytes for every \<^verbatim>\<open>T\<close>.
\<close>

definition sizeof_MemoryPoolBlock :: nat where
  "sizeof_MemoryPoolBlock = 2 * sizeof_index_t"

text \<open>
  Modelled from the spec: \<^verbatim>\<open>size_t align_to(size_t n, size_t align)\<close> is declared in
  the header and defined elsewhere.  The spec: the smallest multiple of \<open>align\<close>
  that is \<open>\<ge> n\<close>.
\<close>

definition align_to :: "nat \<Rightarrow> nat \<Rightarrow> nat" where
  "align_to n align = ((n + align - 1) div align) * align"

section \<open>MemoryPoolBlock\<close>

text \<open>
  \<^verbatim>\<open>MemoryPoolBlock<T>::MemoryPoolBlock(index_t entries_per_block)\<close>, constructed by
  placement new at address \<open>ptr\<close>.  The loop writes \<^verbatim>\<open>indices[i] = i + 1\<close> for
  \<^verbatim>\<open>i = 0 .. entries_per_block - 1\<close>; the entry storage is raw memory.
\<close>

definition MemoryPoolBlock_ctor :: "addr \<Rightarrow> index_t \<Rightarrow> 'a MemoryPoolBlock" where
  "MemoryPoolBlock_ctor ptr entries =
     \<lparr> free_head_index = 0,
       entries_per_block = entries,
       this_ptr = ptr,
       indices = map (\<lambda>i. word_of_nat i + 1) [0..<unat entries],
       memory = replicate (unat entries) None \<rparr>"

text \<open>\<^verbatim>\<open>indices_begin()\<close>: \<^verbatim>\<open>this + 1\<close>, the first byte after the header.\<close>

definition indices_begin :: "'a MemoryPoolBlock \<Rightarrow> addr" where
  "indices_begin b = this_ptr b + sizeof_MemoryPoolBlock"

text \<open>
  \<^verbatim>\<open>memory_begin()\<close>: \<^verbatim>\<open>indices_begin() + entries_per_block_\<close>, pointer arithmetic on
  \<^verbatim>\<open>index_t *\<close>.
\<close>

definition memory_begin :: "'a MemoryPoolBlock \<Rightarrow> addr" where
  "memory_begin b = indices_begin b + sizeof_index_t * unat (entries_per_block b)"

definition memory_offset :: "'a MemoryPoolBlock \<Rightarrow> addr" where
  "memory_offset b = memory_begin b"

text \<open>The address \<^verbatim>\<open>memory_begin() + index\<close>, pointer arithmetic on \<^verbatim>\<open>T *\<close>.\<close>

definition entry_ptr :: "config \<Rightarrow> 'a MemoryPoolBlock \<Rightarrow> index_t \<Rightarrow> addr" where
  "entry_ptr C b index = memory_begin b + sizeof_T C * unat index"

text \<open>
  The size \<^verbatim>\<open>MemoryPoolBlock<T>::create\<close> requests from \<^verbatim>\<open>aligned_malloc\<close>.
\<close>

definition block_size :: "config \<Rightarrow> index_t \<Rightarrow> nat" where
  "block_size C entries =
     (let header_size = sizeof_MemoryPoolBlock;
          indices_size = align_to (sizeof_index_t * unat entries) (alignof_T C);
          entries_size = sizeof_T C * unat entries
      in header_size + indices_size + entries_size)"

text \<open>
  \<^verbatim>\<open>MemoryPoolBlock<T>::create(index_t entries_per_block)\<close>.  \<open>mem\<close> is the pointer the
  host's \<^verbatim>\<open>aligned_malloc(block_size, MIN_BLOCK_ALIGN)\<close> returns for this call (0 when
  it fails).  The result is the returned block pointer, \<open>None\<close> for \<^verbatim>\<open>nullptr\<close>.
  The constructor runs only \<^verbatim>\<open>if (ptr)\<close>; the two assertions that follow are outside
  that test and call \<^verbatim>\<open>ptr->memory_begin()\<close>, which reads \<^verbatim>\<open>ptr->entries_per_block_\<close>:
  with a null \<open>ptr\<close> and assertions compiled in, that is a null dereference.
\<close>

definition create :: "config \<Rightarrow> addr \<Rightarrow> index_t \<Rightarrow> error + 'a MemoryPoolBlock option" where
  "create C mem entries =
     (let header_size = sizeof_MemoryPoolBlock;
          indices_size = align_to (sizeof_index_t * unat entries) (alignof_T C);
          ptr = mem;
          blk = (if ptr \<noteq> 0 then Some (MemoryPoolBlock_ctor ptr entries) else None)
      in if NDEBUG C then Inr blk
         else (case blk of
                 None \<Rightarrow> Inl NullDereference
               | Some b \<Rightarrow>
                   if indices_begin b \<noteq> ptr + header_size then Inl AssertionFailed
                   else if memory_begin b \<noteq> ptr + header_size + indices_size
                   then Inl AssertionFailed
                   else Inr blk))"

text \<open>
  \<^verbatim>\<open>T * MemoryPoolBlock<T>::new_object(P&&... params)\<close>.  \<open>v\<close> stands for the object
  the constructor call \<^verbatim>\<open>new (ptr) T(params...)\<close> builds.  The result is the returned
  pointer (0 for \<^verbatim>\<open>nullptr\<close>) and the block afterwards.
\<close>

definition new_object :: "config \<Rightarrow> 'a MemoryPoolBlock \<Rightarrow> 'a \<Rightarrow> error + (addr \<times> 'a MemoryPoolBlock)" where
  "new_object C b v =
     (let index = free_head_index b
      in if index \<noteq> entries_per_block b
         then if \<not> unat index < length (indices b) then Inl OutOfBounds
              else if assert_fails C (indices b ! unat index \<noteq> index) then Inl AssertionFailed
              else if \<not> unat index < length (memory b) then Inl OutOfBounds
              else let ptr = entry_ptr C b index
                   in Inr (ptr,
                        b\<lparr> free_head_index := indices b ! unat index,
                           indices := (indices b)[unat index := index],
                           memory := (memory b)[unat index := Some v] \<rparr>)
         else Inr (0, b))"

text \<open>
  \<^verbatim>\<open>void MemoryPoolBlock<T>::delete_object(const T * ptr)\<close>.  \<^verbatim>\<open>ptr - begin\<close> is the
  distance in elements, converted to \<^verbatim>\<open>index_t\<close>; \<^verbatim>\<open>ptr->~T()\<close> ends the life of
  the object stored there.  Without the range assertion, a \<open>ptr\<close> outside the entry
  storage makes \<^verbatim>\<open>ptr - begin\<close> and the index access that follows undefined.
\<close>

definition delete_object :: "config \<Rightarrow> 'a MemoryPoolBlock \<Rightarrow> addr \<Rightarrow> error + 'a MemoryPoolBlock" where
  "delete_object C b ptr =
     (if ptr \<noteq> 0
      then let entries_begin = memory_begin b;
               entries_end = entries_begin + sizeof_T C * unat (entries_per_block b)
           in if assert_fails C (ptr \<ge> entries_begin \<and> ptr < entries_end)
              then Inl AssertionFailed
              else if \<not> (ptr \<ge> entries_begin \<and> ptr < entries_end) then Inl OutOfBounds
              else let index = (word_of_nat ((ptr - entries_begin) div sizeof_T C) :: index_t)
                   in if \<not> unat index < length (indices b) \<or> \<not> unat index < length (memory b)
                      then Inl OutOfBounds
                      else if assert_fails C (indices b ! unat index = index)
                      then Inl AssertionFailed
                      else Inr (b\<lparr> free_head_index := index,
                                  indices := (indices b)[unat index := free_head_index b],
                                  memory := (memory b)[unat index := None] \<rparr>)
      else Inr b)"

text \<open>
  \<^verbatim>\<open>void MemoryPoolBlock<T>::for_each(const F func) const\<close>.  The visitor receives the
  entry's address; \<open>func\<close> is the visitor's effect on the state \<open>s\<close> it captures.
\<close>

definition for_each :: "config \<Rightarrow> 'a MemoryPoolBlock \<Rightarrow> (addr \<Rightarrow> 's \<Rightarrow> 's) \<Rightarrow> 's \<Rightarrow> 's" where
  "for_each C b func s =
     fold (\<lambda>i s. if indices b ! i = word_of_nat i then func (entry_ptr C b (word_of_nat i)) s else s)
       [0..<unat (entries_per_block b)] s"

text \<open>\<^verbatim>\<open>index_t MemoryPoolBlock<T>::count_allocations() const\<close>\<close>

definition count_allocations :: "config \<Rightarrow> 'a MemoryPoolBlock \<Rightarrow> index_t" where
  "count_allocations C b = for_each C b (\<lambda>_ num_allocations. num_allocations + 1) 0"

section \<open>FixedMemoryPool\<close>

text \<open>\<^verbatim>\<open>class FixedMemoryPool\<close>: the pointer \<^verbatim>\<open>block_\<close>, \<open>None\<close> for \<^verbatim>\<open>nullptr\<close>.\<close>

record 'a FixedMemoryPool =
  fixed_block :: "'a MemoryPoolBlock option"

text \<open>\<^verbatim>\<open>FixedMemoryPool(index_t max_entries) : block_(Block::create(max_entries)) {}\<close>\<close>

definition FixedMemoryPool_ctor :: "config \<Rightarrow> addr \<Rightarrow> index_t \<Rightarrow> error + 'a FixedMemoryPool" where
  "FixedMemoryPool_ctor C mem max_entries =
     (case create C mem max_entries of
        Inl e \<Rightarrow> Inl e
      | Inr blk \<Rightarrow> Inr \<lparr> fixed_block = blk \<rparr>)"

text \<open>\<^verbatim>\<open>return block_->new_object(std::forward<P>(params)...);\<close>\<close>

definition Fixed_new_object :: "config \<Rightarrow> 'a FixedMemoryPool \<Rightarrow> 'a \<Rightarrow> error + (addr \<times> 'a FixedMemoryPool)" where
  "Fixed_new_object C p v =
     (case fixed_block p of
        None \<Rightarrow> Inl NullDereference
      | Some b \<Rightarrow>
          (case new_object C b v of
             Inl e \<Rightarrow> Inl e
           | Inr (ptr, b') \<Rightarrow> Inr (ptr, p\<lparr> fixed_block := Some b' \<rparr>)))"

text \<open>\<^verbatim>\<open>block_->delete_object(ptr);\<close>\<close>

definition Fixed_delete_object :: "config \<Rightarrow> 'a FixedMemoryPool \<Rightarrow> addr \<Rightarrow> error + 'a FixedMemoryPool" where
  "Fixed_delete_object C p ptr =
     (case fixed_block p of
        None \<Rightarrow> Inl NullDereference
      | Some b \<Rightarrow>
          (case delete_object C b ptr of
             Inl e \<Rightarrow> Inl e
           | Inr b' \<Rightarrow> Inr (p\<lparr> fixed_block := Some b' \<rparr>)))"

text \<open>\<^verbatim>\<open>block_->for_each(func);\<close>\<close>

definition Fixed_for_each :: "config \<Rightarrow> 'a FixedMemoryPool \<Rightarrow> (addr \<Rightarrow> 's \<Rightarrow> 's) \<Rightarrow> 's \<Rightarrow> error + 's" where
  "Fixed_for_each C p func s =
     (case fixed_block p of
        None \<Rightarrow> Inl NullDereference
      | Some b \<Rightarrow> Inr (for_each C b func s))"

text \<open>
  \<^verbatim>\<open>FixedMemoryPool<T>::get_stats()\<close>: the visitor increments
  \<^verbatim>\<open>stats.allocation_count\<close>, a \<^verbatim>\<open>size_t\<close>.
\<close>

definition Fixed_get_stats :: "config \<Rightarrow> 'a FixedMemoryPool \<Rightarrow> error + MemoryPoolStats" where
  "Fixed_get_stats C p =
     (case fixed_block p of
        None \<Rightarrow> Inl NullDereference
      | Some b \<Rightarrow>
          Inr \<lparr> block_count = 1,
                allocation_count = for_each C b (\<lambda>_ count. count + 1) 0 \<rparr>)"

section \<open>DynamicMemoryPool\<close>

text \<open>
  \<^verbatim>\<open>struct BlockInfo\<close>.  \<^verbatim>\<open>block_\<close> points to a block only this record refers to, so
  the record holds the block itself.
\<close>

record 'a BlockInfo =
  num_free :: index_t
  offset :: addr
  block :: "'a MemoryPoolBlock"

text \<open>
  \<^verbatim>\<open>class DynamicMemoryPool\<close>.  \<open>block_info\<close> is the array \<^verbatim>\<open>block_info_\<close> points to,
  empty for \<^verbatim>\<open>nullptr\<close>.
\<close>

record 'a DynamicMemoryPool =
  block_info :: "'a BlockInfo list"
  num_blocks :: index_t
  free_block_index :: index_t
  pool_entries_per_block :: index_t

text \<open>
  What the host allocator answers while one pool operation runs: the pointer
  \<^verbatim>\<open>aligned_malloc\<close> returns (0 when it fails) and whether \<^verbatim>\<open>realloc\<close> succeeds.
  An operation asks each of them at most once.
\<close>

record host =
  malloc_ptr :: addr
  realloc_ok :: bool

text \<open>
  \<^verbatim>\<open>realloc(block_info_, num_blocks_ * sizeof(BlockInfo))\<close>, when it succeeds: the
  array with \<open>n\<close> records, the old contents kept up to the smaller of the two sizes.
  A record beyond the old contents is uninitialised; \<^verbatim>\<open>add_block\<close> is the only
  caller, it grows the array by one record and initialises that record next, and
  \<open>fill\<close> is what it stores there.
\<close>

definition realloc_array :: "'b list \<Rightarrow> nat \<Rightarrow> 'b \<Rightarrow> 'b list" where
  "realloc_array old n fill = take n old @ replicate (n - length old) fill"

text \<open>
  \<^verbatim>\<open>BlockInfo * DynamicMemoryPool<T>::add_block()\<close>.  The result is the index of the
  returned record in \<open>block_info\<close> (\<open>None\<close> for \<^verbatim>\<open>nullptr\<close>) and the pool afterwards.
  The result of \<^verbatim>\<open>realloc\<close> is stored without a test and the record
  \<^verbatim>\<open>block_info_[free_block_index_]\<close> is written through it.
\<close>

definition add_block :: "config \<Rightarrow> 'a DynamicMemoryPool \<Rightarrow> host \<Rightarrow> error + (nat option \<times> 'a DynamicMemoryPool)" where
  "add_block C p h =
     (if assert_fails C (free_block_index p = num_blocks p) then Inl AssertionFailed
      else case create C (malloc_ptr h) (pool_entries_per_block p) of
             Inl e \<Rightarrow> Inl e
           | Inr None \<Rightarrow> Inr (None, p)
           | Inr (Some blk) \<Rightarrow>
               let n = num_blocks p + 1;
                   info = \<lparr> num_free = pool_entries_per_block p,
                            offset = memory_offset blk,
                            block = blk \<rparr>
               in if \<not> realloc_ok h then Inl NullDereference
                  else let arr = realloc_array (block_info p) (unat n) info;
                           i = unat (free_block_index p)
                       in if \<not> i < length arr then Inl OutOfBounds
                          else Inr (Some i, p\<lparr> num_blocks := n, block_info := arr[i := info] \<rparr>))"

text \<open>
  \<^verbatim>\<open>DynamicMemoryPool(index_t entries_per_block)\<close>: the result of \<^verbatim>\<open>add_block()\<close> is
  not looked at.
\<close>

definition DynamicMemoryPool_ctor :: "config \<Rightarrow> index_t \<Rightarrow> host \<Rightarrow> error + 'a DynamicMemoryPool" where
  "DynamicMemoryPool_ctor C entries h =
     (case add_block C \<lparr> block_info = [], num_blocks = 0, free_block_index = 0,
                         pool_entries_per_block = entries \<rparr> h of
        Inl e \<Rightarrow> Inl e
      | Inr (_, p) \<Rightarrow> Inr p)"

text \<open>
  The search loop of \<^verbatim>\<open>new_object\<close>:
  \<^verbatim>\<open>for (...; p_info != p_end && p_info->num_free_ == 0; ++p_info) {}\<close> with
  \<open>i\<close> the position of \<^verbatim>\<open>p_info\<close> and \<open>n\<close> that of \<^verbatim>\<open>p_end\<close>.
\<close>

function find_free :: "'a BlockInfo list \<Rightarrow> nat \<Rightarrow> nat \<Rightarrow> error + nat" where
  "find_free infos n i =
     (if i = n then Inr i
      else if \<not> i < length infos then Inl OutOfBounds
      else if num_free (infos ! i) = 0 then find_free infos n (Suc i)
      else Inr i)"
  by pat_completeness auto
termination
  by (relation "measure (\<lambda>(infos, n, i). length infos - i)") auto

declare find_free.simps [simp del]

text \<open>\<^verbatim>\<open>T * DynamicMemoryPool<T>::new_object(P&&... params)\<close>\<close>

definition Dynamic_new_object :: "config \<Rightarrow> 'a DynamicMemoryPool \<Rightarrow> 'a \<Rightarrow> host \<Rightarrow> error + (addr \<times> 'a DynamicMemoryPool)" where
  "Dynamic_new_object C p v h =
     (if assert_fails C (free_block_index p < num_blocks p) then Inl AssertionFailed
      else case find_free (block_info p) (unat (num_blocks p)) (unat (free_block_index p)) of
             Inl e \<Rightarrow> Inl e
           | Inr i \<Rightarrow>
               let p1 = p\<lparr> free_block_index := word_of_nat i \<rparr>
               in (case (if free_block_index p1 = num_blocks p1 then add_block C p1 h
                         else Inr (Some i, p1)) of
                     Inl e \<Rightarrow> Inl e
                   | Inr (None, p2) \<Rightarrow> Inr (0, p2)
                   | Inr (Some j, p2) \<Rightarrow>
                       let info = block_info p2 ! j
                       in (case new_object C (block info) v of
                             Inl e \<Rightarrow> Inl e
                           | Inr (ptr, blk) \<Rightarrow>
                               if assert_fails C (ptr \<noteq> 0) then Inl AssertionFailed
                               else Inr (ptr,
                                      p2\<lparr> block_info := (block_info p2)
                                            [j := info\<lparr> block := blk,
                                                       num_free := num_free info - 1 \<rparr>] \<rparr>))))"

text \<open>
  The loop of \<^verbatim>\<open>DynamicMemoryPool<T>::delete_object\<close>, with \<open>i\<close> the position of
  \<^verbatim>\<open>p_info\<close>.
\<close>

function delete_scan :: "config \<Rightarrow> 'a DynamicMemoryPool \<Rightarrow> addr \<Rightarrow> nat \<Rightarrow> error + 'a DynamicMemoryPool" where
  "delete_scan C p ptr i =
     (if i = unat (num_blocks p) then Inr p
      else if \<not> i < length (block_info p) then Inl OutOfBounds
      else let info = block_info p ! i;
               p_entries_begin = offset info;
               p_entries_end = p_entries_begin + sizeof_T C * unat (pool_entries_per_block p)
           in if ptr \<ge> p_entries_begin \<and> ptr < p_entries_end
              then (case delete_object C (block info) ptr of
                      Inl e \<Rightarrow> Inl e
                    | Inr blk \<Rightarrow>
                        let p' = p\<lparr> block_info := (block_info p)
                                     [i := info\<lparr> block := blk,
                                                num_free := num_free info + 1 \<rparr>] \<rparr>;
                            free_block = (word_of_nat i :: index_t)
                        in Inr (if free_block < free_block_index p'
                                then p'\<lparr> free_block_index := free_block \<rparr>
                                else p'))
              else delete_scan C p ptr (Suc i))"
  by pat_completeness auto
termination
  by (relation "measure (\<lambda>(C, p, ptr, i). length (block_info p) - i)") auto

declare delete_scan.simps [simp del]

text \<open>\<^verbatim>\<open>void DynamicMemoryPool<T>::delete_object(const T * ptr)\<close>\<close>

definition Dynamic_delete_object :: "config \<Rightarrow> 'a DynamicMemoryPool \<Rightarrow> addr \<Rightarrow> error + 'a DynamicMemoryPool" where
  "Dynamic_delete_object C p ptr = delete_scan C p ptr 0"

text \<open>
  The loop of \<^verbatim>\<open>DynamicMemoryPool<T>::for_each\<close>, with \<open>i\<close> the position of \<^verbatim>\<open>p_info\<close>.
\<close>

function for_each_from :: "config \<Rightarrow> 'a DynamicMemoryPool \<Rightarrow> (addr \<Rightarrow> 's \<Rightarrow> 's) \<Rightarrow> nat \<Rightarrow> 's \<Rightarrow> error + 's" where
  "for_each_from C p func i s =
     (if i = unat (num_blocks p) then Inr s
      else if \<not> i < length (block_info p) then Inl OutOfBounds
      else let info = block_info p ! i
           in for_each_from C p func (Suc i)
                (if num_free info < pool_entries_per_block p
                 then for_each C (block info) func s
                 else s))"
  by pat_completeness auto
termination
  by (relation "measure (\<lambda>(C, p, func, i, s). length (block_info p) - i)") auto

declare for_each_from.simps [simp del]

definition Dynamic_for_each :: "config \<Rightarrow> 'a DynamicMemoryPool \<Rightarrow> (addr \<Rightarrow> 's \<Rightarrow> 's) \<Rightarrow> 's \<Rightarrow> error + 's" where
  "Dynamic_for_each C p func s = for_each_from C p func 0 s"

text \<open>
  The loop of \<^verbatim>\<open>DynamicMemoryPool<T>::get_stats\<close>; both counters are \<^verbatim>\<open>size_t\<close>.
\<close>

function get_stats_from :: "config \<Rightarrow> 'a DynamicMemoryPool \<Rightarrow> nat \<Rightarrow> MemoryPoolStats \<Rightarrow> error + MemoryPoolStats" where
  "get_stats_from C p i stats =
     (if i = unat (num_blocks p) then Inr stats
      else if \<not> i < length (block_info p) then Inl OutOfBounds
      else let info = block_info p ! i;
               stats1 = stats\<lparr> block_count := block_count stats + 1 \<rparr>
           in get_stats_from C p (Suc i)
                (if num_free info < pool_entries_per_block p
                 then stats1\<lparr> allocation_count :=
                        allocation_count stats1 + unat (count_allocations C (block info)) \<rparr>
                 else stats1))"
  by pat_completeness auto
termination
  by (relation "measure (\<lambda>(C, p, i, stats). length (block_info p) - i)") auto

declare get_stats_from.simps [simp del]

definition Dynamic_get_stats :: "config \<Rightarrow> 'a DynamicMemoryPool \<Rightarrow> error + MemoryPoolStats" where
  "Dynamic_get_stats C p =
     get_stats_from C p 0 \<lparr> block_count = 0, allocation_count = 0 \<rparr>"

section \<open>The free list of a block\<close>

text \<open>
  The free list threaded through the index array: starting from \<open>h\<close>, follow
  \<open>idx\<close> until the sentinel \<open>n\<close> (the capacity) is met, for at most \<open>k\<close> links.
  \<open>None\<close> when a link leaves the array or the sentinel is not met within \<open>k\<close> links.
\<close>

fun free_chain :: "index_t list \<Rightarrow> index_t \<Rightarrow> nat \<Rightarrow> index_t \<Rightarrow> index_t list option" where
  "free_chain idx n 0 h = (if h = n then Some [] else None)"
| "free_chain idx n (Suc k) h =
     (if h = n then Some []
      else if unat h < length idx
      then (case free_chain idx n k (idx ! unat h) of
              None \<Rightarrow> None
            | Some fs \<Rightarrow> Some (h # fs))
      else None)"

text \<open>The same list as a relation: \<open>fs\<close> is the chain from \<open>h\<close> to the sentinel.\<close>

primrec is_chain :: "index_t list \<Rightarrow> index_t \<Rightarrow> index_t \<Rightarrow> index_t list \<Rightarrow> bool" where
  "is_chain idx n h [] = (h = n)"
| "is_chain idx n h (f # fs) =
     (h \<noteq> n \<and> h = f \<and> unat f < length idx \<and> is_chain idx n (idx ! unat f) fs)"

definition free_list :: "'a MemoryPoolBlock \<Rightarrow> index_t list option" where
  "free_list b =
     free_chain (indices b) (entries_per_block b) (unat (entries_per_block b)) (free_head_index b)"

text \<open>Slot \<open>i\<close> of the block holds a live object.\<close>

definition live :: "'a MemoryPoolBlock \<Rightarrow> nat \<Rightarrow> bool" where
  "live b i = (memory b ! i \<noteq> None)"

text \<open>
  The invariant of a block: both arrays have \<open>entries_per_block\<close> elements; an index
  entry refers to itself exactly when its slot holds a live object; the chain from
  \<open>free_head_index\<close> ends at the sentinel and runs through every slot without a live
  object exactly once (so the entry of a free slot is the next free slot, or the
  sentinel for the last one).
\<close>

definition block_inv :: "'a MemoryPoolBlock \<Rightarrow> bool" where
  "block_inv b =
     (length (indices b) = unat (entries_per_block b) \<and>
      length (memory b) = unat (entries_per_block b) \<and>
      list_all (\<lambda>i. (indices b ! i = word_of_nat i) = live b i)
        [0..<unat (entries_per_block b)] \<and>
      (case free_list b of
         None \<Rightarrow> False
       | Some fs \<Rightarrow>
           distinct fs \<and>
           list_all (\<lambda>i. (word_of_nat i \<in> set fs) = (\<not> live b i))
             [0..<unat (entries_per_block b)]))"

text \<open>
  The ownership precondition of \<^verbatim>\<open>delete_object\<close>: \<open>ptr\<close> is the address of a slot of
  this block that holds a live object.
\<close>

definition owned :: "config \<Rightarrow> 'a MemoryPoolBlock \<Rightarrow> addr \<Rightarrow> bool" where
  "owned C b ptr =
     list_ex (\<lambda>i. live b i \<and> ptr = entry_ptr C b (word_of_nat i))
       [0..<unat (entries_per_block b)]"

text \<open>
  The block \<^verbatim>\<open>new_object\<close> leaves behind when the free list is not empty, and the
  block \<^verbatim>\<open>delete_object\<close> leaves behind when it is given the address of slot \<open>i\<close>.
\<close>

definition new_object_post :: "'a MemoryPoolBlock \<Rightarrow> 'a \<Rightarrow> 'a MemoryPoolBlock" where
  "new_object_post b v =
     b\<lparr> free_head_index := indices b ! unat (free_head_index b),
        indices := (indices b)[unat (free_head_index b) := free_head_index b],
        memory := (memory b)[unat (free_head_index b) := Some v] \<rparr>"

definition delete_object_post :: "'a MemoryPoolBlock \<Rightarrow> nat \<Rightarrow> 'a MemoryPoolBlock" where
  "delete_object_post b i =
     b\<lparr> free_head_index := word_of_nat i,
        indices := (indices b)[i := free_head_index b],
        memory := (memory b)[i := None] \<rparr>"

section \<open>Live objects and the invariants of the pools\<close>

text \<open>
  The addresses of the live objects of a block, in the order of their slots.
\<close>

definition live_ptrs :: "config \<Rightarrow> 'a MemoryPoolBlock \<Rightarrow> addr list" where
  "live_ptrs C b =
     map (\<lambda>i. entry_ptr C b (word_of_nat i)) (filter (live b) [0..<unat (entries_per_block b)])"

text \<open>
  The addresses of the live objects of a \<^verbatim>\<open>DynamicMemoryPool\<close>: block after block in the
  order of \<open>block_info\<close> (\<^verbatim>\<open>add_block\<close> appends, so this is the order of creation),
  and in the order of the slots within each block.
\<close>

definition all_live :: "config \<Rightarrow> 'a DynamicMemoryPool \<Rightarrow> addr list" where
  "all_live C p = concat (map (\<lambda>info. live_ptrs C (block info)) (block_info p))"

text \<open>
  The addresses of the blocks of a \<^verbatim>\<open>DynamicMemoryPool\<close>, in the order of their records
  in \<open>block_info\<close>.
\<close>

definition block_addrs :: "'a DynamicMemoryPool \<Rightarrow> addr list" where
  "block_addrs p = map (\<lambda>info. this_ptr (block info)) (block_info p)"

text \<open>
  Two blocks of \<open>n\<close> entries occupy disjoint memory: each takes \<open>block_size C n\<close>
  bytes from its address on.
\<close>

definition apart :: "config \<Rightarrow> index_t \<Rightarrow> addr \<Rightarrow> addr \<Rightarrow> bool" where
  "apart C n a b = (a + block_size C n \<le> b \<or> b + block_size C n \<le> a)"

text \<open>
  \<open>ptr\<close> lies in the entry storage of block \<open>b\<close>, taken as \<open>n\<close> entries long:
  \<^verbatim>\<open>ptr >= begin && ptr < begin + n\<close>.
\<close>

definition in_entries :: "config \<Rightarrow> index_t \<Rightarrow> 'a MemoryPoolBlock \<Rightarrow> addr \<Rightarrow> bool" where
  "in_entries C n b ptr =
     (memory_begin b \<le> ptr \<and> ptr < memory_begin b + sizeof_T C * unat n)"

text \<open>
  The second assertion of \<^verbatim>\<open>create\<close> does not fail for blocks of \<open>n\<close> entries: it
  compares \<^verbatim>\<open>memory_begin()\<close> with the end of the index array rounded up to
  \<^verbatim>\<open>alignof(T)\<close>.
\<close>

definition layout_ok :: "config \<Rightarrow> index_t \<Rightarrow> bool" where
  "layout_ok C n =
     (\<not> assert_fails C
          (sizeof_index_t * unat n = align_to (sizeof_index_t * unat n) (alignof_T C)))"

text \<open>
  A \<^verbatim>\<open>BlockInfo\<close> record is in sync with its block: the block satisfies its
  invariant and has the capacity of the pool, \<open>offset\<close> is its \<^verbatim>\<open>memory_offset()\<close>, and
  \<open>num_free\<close> counts its slots without a live object.
\<close>

definition info_inv :: "config \<Rightarrow> index_t \<Rightarrow> 'a BlockInfo \<Rightarrow> bool" where
  "info_inv C n info =
     (block_inv (block info) \<and>
      entries_per_block (block info) = n \<and>
      offset info = memory_offset (block info) \<and>
      unat (num_free info) + length (live_ptrs C (block info)) = unat n)"

text \<open>
  The invariant of a \<^verbatim>\<open>DynamicMemoryPool\<close> whose outstanding objects (returned by
  \<^verbatim>\<open>new_object\<close> and not yet deleted) are at the addresses \<open>lv\<close>.
\<close>

definition dyn_inv :: "config \<Rightarrow> 'a DynamicMemoryPool \<Rightarrow> addr list \<Rightarrow> bool" where
  "dyn_inv C p lv =
     (length (block_info p) = unat (num_blocks p) \<and>
      free_block_index p < num_blocks p \<and>
      pool_entries_per_block p \<noteq> 0 \<and>
      layout_ok C (pool_entries_per_block p) \<and>
      list_all (info_inv C (pool_entries_per_block p)) (block_info p) \<and>
      list_all (\<lambda>j. list_all (\<lambda>k. j = k \<or>
                   apart C (pool_entries_per_block p)
                     (this_ptr (block (block_info p ! j))) (this_ptr (block (block_info p ! k))))
                 [0..<length (block_info p)])
        [0..<length (block_info p)] \<and>
      distinct lv \<and>
      set lv = set (all_live C p))"

text \<open>The invariant of a \<^verbatim>\<open>FixedMemoryPool\<close> with outstanding objects at \<open>lv\<close>.\<close>

definition fixed_inv :: "config \<Rightarrow> 'a FixedMemoryPool \<Rightarrow> addr list \<Rightarrow> bool" where
  "fixed_inv C p lv =
     (case fixed_block p of
        None \<Rightarrow> False
      | Some b \<Rightarrow> block_inv b \<and> distinct lv \<and> set lv = set (live_ptrs C b))"

section \<open>Histories of calls\<close>

text \<open>
  A call of a pool: \<^verbatim>\<open>new_object\<close> with the object to construct and what the host
  allocator answers during the call, or \<^verbatim>\<open>delete_object\<close> with a pointer.
\<close>

datatype ('a, 'h) call = New_object 'a 'h | Delete_object addr

text \<open>
  A pool together with the bookkeeping of its client: the pointers that
  \<^verbatim>\<open>new_object\<close> has returned and that have not been deleted since, the number of
  successful allocations (\<^verbatim>\<open>new_object\<close> returned a pointer other than \<^verbatim>\<open>nullptr\<close>),
  and the number of releases.
\<close>

record 'p history =
  pool :: 'p
  outstanding :: "addr list"
  n_allocated :: nat
  n_released :: nat

definition start :: "'p \<Rightarrow> 'p history" where
  "start p = \<lparr> pool = p, outstanding = [], n_allocated = 0, n_released = 0 \<rparr>"

definition allocated :: "'p history \<Rightarrow> addr \<Rightarrow> 'p \<Rightarrow> 'p history" where
  "allocated st ptr p =
     (if ptr \<noteq> 0
      then st\<lparr> pool := p, outstanding := ptr # outstanding st,
               n_allocated := n_allocated st + 1 \<rparr>
      else st\<lparr> pool := p \<rparr>)"

definition released :: "'p history \<Rightarrow> addr \<Rightarrow> 'p \<Rightarrow> 'p history" where
  "released st ptr p =
     st\<lparr> pool := p, outstanding := remove1 ptr (outstanding st),
         n_released := n_released st + 1 \<rparr>"

definition Fixed_step :: "config \<Rightarrow> 'a FixedMemoryPool history \<Rightarrow> ('a, unit) call \<Rightarrow> error + 'a FixedMemoryPool history" where
  "Fixed_step C st c =
     (case c of
        New_object v _ \<Rightarrow>
          (case Fixed_new_object C (pool st) v of
             Inl e \<Rightarrow> Inl e
           | Inr (ptr, p) \<Rightarrow> Inr (allocated st ptr p))
      | Delete_object ptr \<Rightarrow>
          (case Fixed_delete_object C (pool st) ptr of
             Inl e \<Rightarrow> Inl e
           | Inr p \<Rightarrow> Inr (released st ptr p)))"

definition Dynamic_step :: "config \<Rightarrow> 'a DynamicMemoryPool history \<Rightarrow> ('a, host) call \<Rightarrow> error + 'a DynamicMemoryPool history" where
  "Dynamic_step C st c =
     (case c of
        New_object v h \<Rightarrow>
          (case Dynamic_new_object C (pool st) v h of
             Inl e \<Rightarrow> Inl e
           | Inr (ptr, p) \<Rightarrow> Inr (allocated st ptr p))
      | Delete_object ptr \<Rightarrow>
          (case Dynamic_delete_object C (pool st) ptr of
             Inl e \<Rightarrow> Inl e
           | Inr p \<Rightarrow> Inr (released st ptr p)))"

text \<open>The calls one after the other; the first call that does not return ends the run.\<close>

fun run :: "('s \<Rightarrow> 'c \<Rightarrow> error + 's) \<Rightarrow> 's \<Rightarrow> 'c list \<Rightarrow> error + 's" where
  "run step st [] = Inr st"
| "run step st (c # cs) =
     (case step st c of
        Inl e \<Rightarrow> Inl e
      | Inr st' \<Rightarrow> run step st' cs)"

text \<open>Every call is made in a state in which \<open>pre\<close> allows it.\<close>

fun follows :: "('s \<Rightarrow> 'c \<Rightarrow> bool) \<Rightarrow> ('s \<Rightarrow> 'c \<Rightarrow> error + 's) \<Rightarrow> 's \<Rightarrow> 'c list \<Rightarrow> bool" where
  "follows pre step st [] = True"
| "follows pre step st (c # cs) =
     (pre st c \<and>
      (case step st c of
         Inl e \<Rightarrow> True
       | Inr st' \<Rightarrow> follows pre step st' cs))"

text \<open>
  The ownership contract: \<^verbatim>\<open>delete_object\<close> is called only with a pointer that is
  outstanding.
\<close>

definition owns :: "'p history \<Rightarrow> ('a, 'h) call \<Rightarrow> bool" where
  "owns st c =
     (case c of
        New_object _ _ \<Rightarrow> True
      | Delete_object ptr \<Rightarrow> ptr \<in> set (outstanding st))"

text \<open>
  The host allocator does not fail during the call, and the memory \<^verbatim>\<open>aligned_malloc\<close>
  hands out is apart from every block the pool holds.
\<close>

definition host_ok :: "config \<Rightarrow> 'a DynamicMemoryPool \<Rightarrow> host \<Rightarrow> bool" where
  "host_ok C p h =
     (malloc_ptr h \<noteq> 0 \<and> realloc_ok h \<and>
      list_all (\<lambda>info. apart C (pool_entries_per_block p) (malloc_ptr h) (this_ptr (block info)))
        (block_info p))"

text \<open>
  What a history of a \<^verbatim>\<open>DynamicMemoryPool\<close> has to respect: the ownership contract, a
  host allocator that does not fail, and a number of blocks that the counter
  \<^verbatim>\<open>num_blocks_\<close> can hold.
\<close>

definition Dynamic_pre :: "config \<Rightarrow> 'a DynamicMemoryPool history \<Rightarrow> ('a, host) call \<Rightarrow> bool" where
  "Dynamic_pre C st c =
     (owns st c \<and>
      (case c of
         New_object _ h \<Rightarrow> host_ok C (pool st) h \<and> num_blocks (pool st) + 1 \<noteq> 0
       | Delete_object _ \<Rightarrow> True))"

text \<open>
  The client's books are balanced: every successful allocation has either been
  released or is outstanding.
\<close>

definition balanced :: "'p history \<Rightarrow> bool" where
  "balanced st = (n_released st + length (outstanding st) = n_allocated st)"

section \<open>Auxiliary facts\<close>

subsection \<open>The free chain\<close>

lemma align_to_zero: "align_to 0 a = 0"
  by (cases a) (simp_all add: align_to_def)

lemma free_chain_sound:
  "free_chain idx n k h = Some fs \<Longrightarrow> is_chain idx n h fs"
  by (induction k arbitrary: h fs) (auto split: if_splits option.splits)

lemma free_chain_complete:
  "is_chain idx n h fs \<Longrightarrow> length fs \<le> k \<Longrightarrow> free_chain idx n k h = Some fs"
proof (induction fs arbitrary: h k)
  case Nil
  then show ?case by (cases k) auto
next
  case (Cons f fs)
  then obtain k' where "k = Suc k'" by (cases k) auto
  with Cons show ?case by auto
qed

lemma is_chain_update:
  "is_chain idx n h fs \<Longrightarrow> x \<notin> set fs \<Longrightarrow> is_chain (idx[unat x := v]) n h fs"
  by (induction fs arbitrary: h) (auto simp: nth_list_update word_unat_eq_iff)

lemma is_chain_in_range:
  "is_chain idx n h fs \<Longrightarrow> f \<in> set fs \<Longrightarrow> unat f < length idx \<and> f \<noteq> n"
  apply (induction fs arbitrary: h) apply auto done

lemma distinct_words_length:
  fixes fs :: "index_t list"
  assumes "distinct fs" and "\<forall>f\<in>set fs. unat f < m"
  shows "length fs \<le> m"
proof -
  have "length fs = card (set fs)" using assms(1) by (simp add: distinct_card)
  also have "\<dots> = card (unat ` set fs)"
    by (rule card_image [symmetric]) (auto simp: inj_on_def word_unat_eq_iff)
  also have "\<dots> \<le> card {0..<m}"
    by (rule card_mono) (use assms(2) in auto)
  finally show ?thesis by simp
qed

lemma unat_word_of_nat_less:
  "i < unat (n :: index_t) \<Longrightarrow> unat (word_of_nat i :: index_t) = i"
  by (rule le_unat_uoi [of _ n]) simp

lemma list_all_upt: "list_all P [0..<n] = (\<forall>i<n. P i)"
  by (auto simp: list_all_iff)

lemma list_ex_upt: "list_ex P [0..<n] = (\<exists>i<n. P i)"
  by (auto simp: list_ex_iff)

text \<open>The invariant, with the chain as a relation.\<close>

lemma block_inv_iff:
  "block_inv b \<longleftrightarrow>
     length (indices b) = unat (entries_per_block b) \<and>
     length (memory b) = unat (entries_per_block b) \<and>
     (\<forall>i<unat (entries_per_block b). (indices b ! i = word_of_nat i) = live b i) \<and>
     (\<exists>fs. is_chain (indices b) (entries_per_block b) (free_head_index b) fs \<and>
           distinct fs \<and>
           (\<forall>i<unat (entries_per_block b). (word_of_nat i \<in> set fs) = (\<not> live b i)))"
  (is "?L \<longleftrightarrow> ?R")
proof
  assume ?L
  then show ?R
    by (auto simp: block_inv_def list_all_upt free_list_def split: option.splits
        dest: free_chain_sound)
next
  assume R: ?R
  then obtain fs where fs: "is_chain (indices b) (entries_per_block b) (free_head_index b) fs"
    "distinct fs" "\<forall>i<unat (entries_per_block b). (word_of_nat i \<in> set fs) = (\<not> live b i)"
    by blast
  from R have len: "length (indices b) = unat (entries_per_block b)" by simp
  have "length fs \<le> unat (entries_per_block b)"
    by (rule distinct_words_length [OF fs(2)])
       (use is_chain_in_range [OF fs(1)] len in auto)
  then have "free_list b = Some fs"
    unfolding free_list_def by (rule free_chain_complete [OF fs(1)])
  with R fs show ?L
    by (simp add: block_inv_def list_all_upt)
qed

lemma is_chain_ascending:
  assumes "length idx = unat (n :: index_t)"
    and "\<forall>i<unat n. idx ! i = word_of_nat i + 1"
  shows "j \<le> unat n \<Longrightarrow> is_chain idx n (word_of_nat j) (map word_of_nat [j..<unat n])"
proof (induction "unat n - j" arbitrary: j)
  case 0
  then have "j = unat n" by simp
  then show ?case by simp
next
  case (Suc d)
  then have j: "j < unat n" by simp
  have step: "is_chain idx n (word_of_nat (Suc j)) (map word_of_nat [Suc j..<unat n])"
    by (rule Suc.hyps(1)) (use Suc.hyps(2) j in auto)
  have ne: "(word_of_nat j :: index_t) \<noteq> n"
    using j unat_word_of_nat_less [OF j] by auto
  have nxt: "idx ! j = word_of_nat (Suc j)"
    using assms(2) j by simp
  have "[j..<unat n] = j # [Suc j..<unat n]"
    using j by (simp add: upt_conv_Cons)
  then show ?case
    using j step ne nxt assms(1) by (simp add: unat_word_of_nat_less)
qed

lemma is_chain_ctor:
  "is_chain (map (\<lambda>i. word_of_nat i + 1) [0..<unat n]) n 0 (map word_of_nat [0..<unat (n :: index_t)])"
  using is_chain_ascending [of "map (\<lambda>i. word_of_nat i + 1) [0..<unat n]" n 0] by simp

lemma block_inv_ctor: "block_inv (MemoryPoolBlock_ctor ptr n)"
proof -
  let ?b = "MemoryPoolBlock_ctor ptr n :: 'a MemoryPoolBlock"
  have ch: "is_chain (indices ?b) (entries_per_block ?b) (free_head_index ?b)
      (map word_of_nat [0..<unat n])"
    using is_chain_ctor [of n] by (simp add: MemoryPoolBlock_ctor_def)
  have di: "distinct (map word_of_nat [0..<unat n] :: index_t list)"
    by (auto simp: distinct_map inj_on_def dest!: arg_cong [where f = unat]
        simp: unat_word_of_nat_less)
  have self: "\<forall>i<unat n. (word_of_nat i + 1 :: index_t) \<noteq> word_of_nat i"
    by simp
  show ?thesis
    unfolding block_inv_iff
    apply (intro conjI)
       apply (simp add: MemoryPoolBlock_ctor_def)
      apply (simp add: MemoryPoolBlock_ctor_def)
     apply (simp add: MemoryPoolBlock_ctor_def live_def)
    apply (rule exI [of _ "map word_of_nat [0..<unat n]"])
    using ch di apply (simp add: MemoryPoolBlock_ctor_def live_def)
    done
qed

subsection \<open>Allocation and release in a block\<close>

lemma memory_begin_pos: "0 < memory_begin b"
  by (simp add: memory_begin_def indices_begin_def sizeof_MemoryPoolBlock_def sizeof_index_t_def)

lemma entry_ptr_nonzero: "entry_ptr C b i \<noteq> 0"
  using memory_begin_pos [of b] by (simp add: entry_ptr_def)

lemma new_object_full:
  "free_head_index b = entries_per_block b \<Longrightarrow> new_object C b v = Inr (0, b)"
  by (simp add: new_object_def)

lemma block_inv_head:
  assumes "block_inv b" and "free_head_index b \<noteq> entries_per_block b"
  shows "unat (free_head_index b) < unat (entries_per_block b)"
    and "\<not> live b (unat (free_head_index b))"
    and "indices b ! unat (free_head_index b) \<noteq> free_head_index b"
proof -
  let ?h = "free_head_index b" and ?n = "entries_per_block b"
  from assms(1) obtain fs where len: "length (indices b) = unat ?n"
    and self: "\<forall>i<unat ?n. (indices b ! i = word_of_nat i) = live b i"
    and ch: "is_chain (indices b) ?n ?h fs"
    and cov: "\<forall>i<unat ?n. (word_of_nat i \<in> set fs) = (\<not> live b i)"
    unfolding block_inv_iff by blast
  from ch assms(2) obtain fs' where fs: "fs = ?h # fs'" by (cases fs) auto
  with ch len show lt: "unat ?h < unat ?n" by simp
  from cov [rule_format, of "unat ?h"] lt fs show nl: "\<not> live b (unat ?h)"
    by simp
  from self [rule_format, of "unat ?h"] lt nl show "indices b ! unat ?h \<noteq> ?h"
    by simp
qed

lemma new_object_free:
  assumes "block_inv b" and "free_head_index b \<noteq> entries_per_block b"
  shows "new_object C b v = Inr (entry_ptr C b (free_head_index b), new_object_post b v)"
proof -
  from assms(1) have "length (indices b) = unat (entries_per_block b)"
    "length (memory b) = unat (entries_per_block b)"
    by (simp_all add: block_inv_iff)
  with block_inv_head [OF assms] assms(2) show ?thesis
    by (simp add: new_object_def new_object_post_def Let_def assert_fails_def)
qed

lemma block_inv_new_object_post:
  assumes "block_inv b" and "free_head_index b \<noteq> entries_per_block b"
  shows "block_inv (new_object_post b v)"
proof -
  let ?h = "free_head_index b" and ?n = "entries_per_block b"
  let ?b' = "new_object_post b v"
  from assms(1) obtain fs where len: "length (indices b) = unat ?n"
    and lenm: "length (memory b) = unat ?n"
    and self: "\<forall>i<unat ?n. (indices b ! i = word_of_nat i) = live b i"
    and ch: "is_chain (indices b) ?n ?h fs"
    and di: "distinct fs"
    and cov: "\<forall>i<unat ?n. (word_of_nat i \<in> set fs) = (\<not> live b i)"
    unfolding block_inv_iff by blast
  from ch assms(2) obtain fs' where fs: "fs = ?h # fs'" by (cases fs) auto
  have lt: "unat ?h < unat ?n" by (rule block_inv_head [OF assms])
  have notin: "?h \<notin> set fs'" using di fs by simp
  have ch': "is_chain (indices ?b') (entries_per_block ?b') (free_head_index ?b') fs'"
    using ch fs is_chain_update [of "indices b" ?n "indices b ! unat ?h" fs' ?h ?h] notin
    by (simp add: new_object_post_def)
  have live': "live ?b' i = (i = unat ?h \<or> live b i)" if "i < unat ?n" for i
    using lenm that by (cases "i = unat ?h") (simp_all add: live_def new_object_post_def)
  have self': "\<forall>i<unat ?n. (indices ?b' ! i = word_of_nat i) = live ?b' i"
  proof (intro allI impI)
    fix i assume i: "i < unat ?n"
    show "(indices ?b' ! i = word_of_nat i) = live ?b' i"
    proof (cases "i = unat ?h")
      case True
      then show ?thesis using live' [OF i] len lt by (simp add: new_object_post_def)
    next
      case False
      then show ?thesis using live' [OF i] self i len by (simp add: new_object_post_def)
    qed
  qed
  have cov': "\<forall>i<unat ?n. (word_of_nat i \<in> set fs') = (\<not> live ?b' i)"
  proof (intro allI impI)
    fix i assume i: "i < unat ?n"
    show "(word_of_nat i \<in> set fs') = (\<not> live ?b' i)"
    proof (cases "i = unat ?h")
      case True
      then show ?thesis using live' [OF i] notin by simp
    next
      case False
      then have "(word_of_nat i :: index_t) \<noteq> ?h"
        using unat_word_of_nat_less [OF i] by auto
      then show ?thesis using live' [OF i] cov [rule_format, OF i] fs False by simp
    qed
  qed
  have epb: "entries_per_block ?b' = ?n" by (simp add: new_object_post_def)
  have len': "length (indices ?b') = unat ?n" "length (memory ?b') = unat ?n"
    using len lenm by (simp_all add: new_object_post_def)
  have "distinct fs'" using di fs by simp
  with ch' cov' have "\<exists>fs. is_chain (indices ?b') ?n (free_head_index ?b') fs \<and> distinct fs \<and>
      (\<forall>i<unat ?n. (word_of_nat i \<in> set fs) = (\<not> live ?b' i))"
    unfolding epb by blast
  with len' self' show ?thesis
    unfolding block_inv_iff epb by blast
qed

lemma entry_ptr_index:
  assumes "0 < sizeof_T C" and "i < unat (entries_per_block b)"
  shows "(entry_ptr C b (word_of_nat i) - memory_begin b) div sizeof_T C = i"
    and "memory_begin b \<le> entry_ptr C b (word_of_nat i)"
    and "entry_ptr C b (word_of_nat i) < memory_begin b + sizeof_T C * unat (entries_per_block b)"
  using assms by (simp_all add: entry_ptr_def unat_word_of_nat_less)

lemma delete_object_live:
  assumes "block_inv b" and "0 < sizeof_T C" and "i < unat (entries_per_block b)" and "live b i"
  shows "delete_object C b (entry_ptr C b (word_of_nat i)) = Inr (delete_object_post b i)"
proof -
  from assms(1) have len: "length (indices b) = unat (entries_per_block b)"
    "length (memory b) = unat (entries_per_block b)"
    and self: "\<forall>i<unat (entries_per_block b). (indices b ! i = word_of_nat i) = live b i"
    by (simp_all add: block_inv_iff)
  from self assms(3,4) have "indices b ! i = word_of_nat i" by simp
  then show ?thesis
    using entry_ptr_index [OF assms(2,3)] len assms(3) entry_ptr_nonzero [of C b "word_of_nat i"]
    by (simp add: delete_object_def delete_object_post_def Let_def unat_word_of_nat_less assert_fails_def)
qed

lemma block_inv_delete_object_post:
  assumes "block_inv b" and "i < unat (entries_per_block b)" and "live b i"
  shows "block_inv (delete_object_post b i)"
proof -
  let ?h = "free_head_index b" and ?n = "entries_per_block b"
  let ?b' = "delete_object_post b i"
  let ?w = "word_of_nat i :: index_t"
  from assms(1) obtain fs where len: "length (indices b) = unat ?n"
    and lenm: "length (memory b) = unat ?n"
    and self: "\<forall>i<unat ?n. (indices b ! i = word_of_nat i) = live b i"
    and ch: "is_chain (indices b) ?n ?h fs"
    and di: "distinct fs"
    and cov: "\<forall>i<unat ?n. (word_of_nat i \<in> set fs) = (\<not> live b i)"
    unfolding block_inv_iff by blast
  have uw: "unat ?w = i" by (rule unat_word_of_nat_less [OF assms(2)])
  have notin: "?w \<notin> set fs" using cov assms(2,3) by simp
  have wn: "?w \<noteq> ?n" using uw assms(2) by auto
  have hw: "?h \<noteq> ?w"
  proof (cases fs)
    case Nil
    with ch wn show ?thesis by simp
  next
    case (Cons f fs')
    with ch notin show ?thesis by auto
  qed
  have ch': "is_chain (indices ?b') (entries_per_block ?b') (free_head_index ?b') (?w # fs)"
    using ch is_chain_update [of "indices b" ?n ?h fs ?w ?h] notin wn uw assms(2) len
    by (simp add: delete_object_post_def)
  have live': "live ?b' j = (j \<noteq> i \<and> live b j)" if "j < unat ?n" for j
    using lenm that by (cases "j = i") (simp_all add: live_def delete_object_post_def)
  have self': "\<forall>j<unat ?n. (indices ?b' ! j = word_of_nat j) = live ?b' j"
  proof (intro allI impI)
    fix j assume j: "j < unat ?n"
    show "(indices ?b' ! j = word_of_nat j) = live ?b' j"
    proof (cases "j = i")
      case True
      then show ?thesis using live' [OF j] len j hw by (simp add: delete_object_post_def)
    next
      case False
      then show ?thesis using live' [OF j] self j len by (simp add: delete_object_post_def)
    qed
  qed
  have cov': "\<forall>j<unat ?n. (word_of_nat j \<in> set (?w # fs)) = (\<not> live ?b' j)"
  proof (intro allI impI)
    fix j assume j: "j < unat ?n"
    show "(word_of_nat j \<in> set (?w # fs)) = (\<not> live ?b' j)"
    proof (cases "j = i")
      case True
      then show ?thesis using live' [OF j] by simp
    next
      case False
      then have "(word_of_nat j :: index_t) \<noteq> ?w"
        using unat_word_of_nat_less [OF j] uw by auto
      then show ?thesis using live' [OF j] cov [rule_format, OF j] False by simp
    qed
  qed
  have epb: "entries_per_block ?b' = ?n" by (simp add: delete_object_post_def)
  have len': "length (indices ?b') = unat ?n" "length (memory ?b') = unat ?n"
    using len lenm by (simp_all add: delete_object_post_def)
  have "distinct (?w # fs)" using di notin by simp
  with ch' cov' have "\<exists>fs. is_chain (indices ?b') ?n (free_head_index ?b') fs \<and> distinct fs \<and>
      (\<forall>i<unat ?n. (word_of_nat i \<in> set fs) = (\<not> live ?b' i))"
    unfolding epb by blast
  with len' self' show ?thesis
    unfolding block_inv_iff epb by blast
qed

lemma owned_iff:
  "owned C b ptr \<longleftrightarrow> (\<exists>i<unat (entries_per_block b). live b i \<and> ptr = entry_ptr C b (word_of_nat i))"
  by (simp add: owned_def list_ex_upt)

lemma create_block_inv: "create C mem n = Inr (Some b) \<Longrightarrow> block_inv b"
  by (auto simp: create_def Let_def block_inv_ctor split: if_splits)

lemma entry_ptr_delete_object_post [simp]:
  "entry_ptr C (delete_object_post b i) w = entry_ptr C b w"
  by (simp add: entry_ptr_def memory_begin_def indices_begin_def delete_object_post_def)

subsection \<open>The live objects of a block\<close>

lemma set_live_ptrs:
  "set (live_ptrs C b) =
     {entry_ptr C b (word_of_nat i) | i. i < unat (entries_per_block b) \<and> live b i}"
  by (auto simp: live_ptrs_def)

lemma owned_live_ptrs: "owned C b ptr \<longleftrightarrow> ptr \<in> set (live_ptrs C b)"
  by (auto simp: owned_iff set_live_ptrs)

lemma entry_ptr_inj:
  assumes "0 < sizeof_T C" and "i < unat (entries_per_block b)" and "j < unat (entries_per_block b)"
    and "entry_ptr C b (word_of_nat i) = entry_ptr C b (word_of_nat j)"
  shows "i = j"
  using assms by (simp add: entry_ptr_def unat_word_of_nat_less)

lemma distinct_live_ptrs: "0 < sizeof_T C \<Longrightarrow> distinct (live_ptrs C b)"
  unfolding live_ptrs_def
  by (rule distinct_map [THEN iffD2]) (auto simp: inj_on_def dest: entry_ptr_inj)

lemma fold_map_filter:
  "fold f (map g (filter P xs)) s = fold (\<lambda>i s. if P i then f (g i) s else s) xs s"
  by (induction xs arbitrary: s) auto

lemma for_each_live_ptrs:
  assumes "block_inv b"
  shows "for_each C b func s = fold func (live_ptrs C b) s"
proof -
  from assms have self: "\<forall>i<unat (entries_per_block b). (indices b ! i = word_of_nat i) = live b i"
    by (simp add: block_inv_iff)
  have "for_each C b func s =
      fold (\<lambda>i s. if live b i then func (entry_ptr C b (word_of_nat i)) s else s)
        [0..<unat (entries_per_block b)] s"
    unfolding for_each_def by (rule fold_cong) (use self in auto)
  then show ?thesis by (simp add: live_ptrs_def fold_map_filter)
qed

lemma fold_count_word: "fold (\<lambda>_ count. count + 1) xs (k::index_t) = k + word_of_nat (length xs)"
  by (induction xs arbitrary: k) (auto simp: algebra_simps)

lemma length_live_ptrs_le: "length (live_ptrs C b) \<le> unat (entries_per_block b)"
  unfolding live_ptrs_def using length_filter_le [of "live b" "[0..<unat (entries_per_block b)]"]
  by simp

lemma count_allocations_live:
  assumes "block_inv b"
  shows "unat (count_allocations C b) = length (live_ptrs C b)"
proof -
  have "count_allocations C b = word_of_nat (length (live_ptrs C b))"
    by (simp add: count_allocations_def for_each_live_ptrs [OF assms] fold_count_word)
  then show ?thesis
    using length_live_ptrs_le [of C b] by (simp add: le_unat_uoi)
qed

lemma live_new_object_post:
  assumes "length (memory b) = unat (entries_per_block b)" and "i < unat (entries_per_block b)"
  shows "live (new_object_post b v) i = (i = unat (free_head_index b) \<or> live b i)"
  using assms by (cases "i = unat (free_head_index b)") (simp_all add: live_def new_object_post_def)

lemma live_delete_object_post:
  assumes "length (memory b) = unat (entries_per_block b)" and "j < unat (entries_per_block b)"
  shows "live (delete_object_post b i) j = (j \<noteq> i \<and> live b j)"
  using assms by (cases "j = i") (simp_all add: live_def delete_object_post_def)

lemma entry_ptr_new_object_post [simp]:
  "entry_ptr C (new_object_post b v) w = entry_ptr C b w"
  by (simp add: entry_ptr_def memory_begin_def indices_begin_def new_object_post_def)

lemma set_live_ptrs_new:
  assumes "block_inv b" and "free_head_index b \<noteq> entries_per_block b"
  shows "set (live_ptrs C (new_object_post b v)) =
         insert (entry_ptr C b (free_head_index b)) (set (live_ptrs C b))"
proof -
  let ?h = "free_head_index b"
  from assms(1) have lenm: "length (memory b) = unat (entries_per_block b)"
    by (simp add: block_inv_iff)
  have lt: "unat ?h < unat (entries_per_block b)" using assms by (rule block_inv_head)
  have epb: "entries_per_block (new_object_post b v) = entries_per_block b"
    by (simp add: new_object_post_def)
  show ?thesis
    unfolding set_live_ptrs epb entry_ptr_new_object_post
    using lt by (auto simp: live_new_object_post [OF lenm] intro: exI [of _ "unat ?h"])
qed

lemma head_not_in_live_ptrs:
  assumes "block_inv b" and "free_head_index b \<noteq> entries_per_block b" and "0 < sizeof_T C"
  shows "entry_ptr C b (free_head_index b) \<notin> set (live_ptrs C b)"
proof
  let ?h = "free_head_index b"
  assume "entry_ptr C b ?h \<in> set (live_ptrs C b)"
  then obtain i where i: "i < unat (entries_per_block b)" "live b i"
    "entry_ptr C b ?h = entry_ptr C b (word_of_nat i)"
    by (auto simp: set_live_ptrs)
  have lt: "unat ?h < unat (entries_per_block b)" using assms(1,2) by (rule block_inv_head)
  have "unat ?h = i"
    using entry_ptr_inj [OF assms(3) lt i(1)] i(3) by simp
  with i(2) block_inv_head(2) [OF assms(1,2)] show False by simp
qed

lemma length_live_ptrs_new:
  assumes "block_inv b" and "free_head_index b \<noteq> entries_per_block b" and "0 < sizeof_T C"
  shows "length (live_ptrs C (new_object_post b v)) = Suc (length (live_ptrs C b))"
proof -
  have "length (live_ptrs C (new_object_post b v)) = card (set (live_ptrs C (new_object_post b v)))"
    by (simp add: distinct_card distinct_live_ptrs [OF assms(3)])
  also have "\<dots> = Suc (card (set (live_ptrs C b)))"
    using head_not_in_live_ptrs [OF assms] by (simp add: set_live_ptrs_new [OF assms(1,2)])
  also have "card (set (live_ptrs C b)) = length (live_ptrs C b)"
    by (simp add: distinct_card distinct_live_ptrs [OF assms(3)])
  finally show ?thesis .
qed

lemma set_live_ptrs_delete:
  assumes "block_inv b" and "i < unat (entries_per_block b)" and "0 < sizeof_T C"
  shows "set (live_ptrs C (delete_object_post b i)) =
         set (live_ptrs C b) - {entry_ptr C b (word_of_nat i)}"
proof -
  from assms(1) have lenm: "length (memory b) = unat (entries_per_block b)"
    by (simp add: block_inv_iff)
  have epb: "entries_per_block (delete_object_post b i) = entries_per_block b"
    by (simp add: delete_object_post_def)
  show ?thesis
    unfolding set_live_ptrs epb entry_ptr_delete_object_post
    using assms(2) entry_ptr_inj [OF assms(3) _ assms(2)]
    by (auto simp: live_delete_object_post [OF lenm])
qed

lemma length_live_ptrs_delete:
  assumes "block_inv b" and "i < unat (entries_per_block b)" and "0 < sizeof_T C" and "live b i"
  shows "Suc (length (live_ptrs C (delete_object_post b i))) = length (live_ptrs C b)"
proof -
  have in_set: "entry_ptr C b (word_of_nat i) \<in> set (live_ptrs C b)"
    using assms(2,4) by (auto simp: set_live_ptrs)
  have "length (live_ptrs C (delete_object_post b i)) = card (set (live_ptrs C (delete_object_post b i)))"
    by (simp add: distinct_card distinct_live_ptrs [OF assms(3)])
  also have "\<dots> = card (set (live_ptrs C b)) - 1"
    using in_set by (simp add: set_live_ptrs_delete [OF assms(1-3)])
  also have "card (set (live_ptrs C b)) = length (live_ptrs C b)"
    by (simp add: distinct_card distinct_live_ptrs [OF assms(3)])
  finally show ?thesis using in_set by (cases "live_ptrs C b") auto
qed

lemma not_full_head:
  assumes "block_inv b" and "length (live_ptrs C b) < unat (entries_per_block b)"
  shows "free_head_index b \<noteq> entries_per_block b"
proof
  assume full: "free_head_index b = entries_per_block b"
  from assms(1) obtain fs where
    ch: "is_chain (indices b) (entries_per_block b) (free_head_index b) fs"
    and cov: "\<forall>i<unat (entries_per_block b). (word_of_nat i \<in> set fs) = (\<not> live b i)"
    unfolding block_inv_iff by blast
  from ch full have "fs = []" by (cases fs) auto
  with cov have "\<forall>i<unat (entries_per_block b). live b i" by simp
  then have "filter (live b) [0..<unat (entries_per_block b)] = [0..<unat (entries_per_block b)]"
    by (simp add: filter_id_conv)
  then have "length (live_ptrs C b) = unat (entries_per_block b)"
    by (simp add: live_ptrs_def)
  with assms(2) show False by simp
qed

lemma live_ptrs_ctor: "live_ptrs C (MemoryPoolBlock_ctor ptr n) = []"
  by (simp add: live_ptrs_def MemoryPoolBlock_ctor_def live_def filter_empty_conv)

subsection \<open>Histories of a FixedMemoryPool\<close>

lemma run_invariant:
  assumes step: "\<And>st c. I st \<Longrightarrow> pre st c \<Longrightarrow> \<exists>st'. step st c = Inr st' \<and> I st'"
  shows "I st \<Longrightarrow> follows pre step st cs \<Longrightarrow> \<exists>st'. run step st cs = Inr st' \<and> I st'"
proof (induction cs arbitrary: st)
  case Nil
  then show ?case by simp
next
  case (Cons c cs)
  from Cons.prems have "pre st c" by simp
  with step [OF Cons.prems(1)] obtain st1 where st1: "step st c = Inr st1" "I st1" by blast
  with Cons.prems(2) have "follows pre step st1 cs" by simp
  with Cons.IH [OF st1(2)] st1(1) show ?case by simp
qed

lemma fold_count_Suc: "fold (\<lambda>_. Suc) xs k = k + length xs"
  by (induction xs arbitrary: k) auto

lemma same_set_length:
  "distinct xs \<Longrightarrow> distinct ys \<Longrightarrow> set xs = set ys \<Longrightarrow> length xs = length ys"
  by (metis distinct_card)

lemma fixed_inv_new_object:
  assumes "fixed_inv C p lv" and "0 < sizeof_T C"
  shows "\<exists>ptr p'. Fixed_new_object C p v = Inr (ptr, p') \<and>
           (if ptr \<noteq> 0 then fixed_inv C p' (ptr # lv) else fixed_inv C p' lv)"
proof -
  from assms(1) obtain b where b: "fixed_block p = Some b" "block_inv b" "distinct lv"
    "set lv = set (live_ptrs C b)"
    by (auto simp: fixed_inv_def split: option.splits)
  show ?thesis
  proof (cases "free_head_index b = entries_per_block b")
    case True
    then have "Fixed_new_object C p v = Inr (0, p)"
      using b(1) by (simp add: Fixed_new_object_def new_object_full)
    with assms(1) show ?thesis by simp
  next
    case False
    let ?ptr = "entry_ptr C b (free_head_index b)"
    have "Fixed_new_object C p v = Inr (?ptr, p\<lparr>fixed_block := Some (new_object_post b v)\<rparr>)"
      using b(1) new_object_free [OF b(2) False] by (simp add: Fixed_new_object_def)
    moreover have "fixed_inv C (p\<lparr>fixed_block := Some (new_object_post b v)\<rparr>) (?ptr # lv)"
      using b block_inv_new_object_post [OF b(2) False] set_live_ptrs_new [OF b(2) False]
        head_not_in_live_ptrs [OF b(2) False assms(2)]
      by (simp add: fixed_inv_def)
    ultimately show ?thesis by (simp add: entry_ptr_nonzero)
  qed
qed

lemma fixed_inv_delete_object:
  assumes "fixed_inv C p lv" and "0 < sizeof_T C" and "ptr \<in> set lv"
  shows "\<exists>p'. Fixed_delete_object C p ptr = Inr p' \<and> fixed_inv C p' (remove1 ptr lv)"
proof -
  from assms(1) obtain b where b: "fixed_block p = Some b" "block_inv b" "distinct lv"
    "set lv = set (live_ptrs C b)"
    by (auto simp: fixed_inv_def split: option.splits)
  from assms(3) b(4) obtain i where i: "i < unat (entries_per_block b)" "live b i"
    and ptr: "ptr = entry_ptr C b (word_of_nat i)"
    by (auto simp: set_live_ptrs)
  have "Fixed_delete_object C p ptr = Inr (p\<lparr>fixed_block := Some (delete_object_post b i)\<rparr>)"
    using b(1) delete_object_live [OF b(2) assms(2) i] by (simp add: Fixed_delete_object_def ptr)
  moreover have "fixed_inv C (p\<lparr>fixed_block := Some (delete_object_post b i)\<rparr>) (remove1 ptr lv)"
    using b block_inv_delete_object_post [OF b(2) i] set_live_ptrs_delete [OF b(2) i(1) assms(2)]
    by (simp add: fixed_inv_def ptr)
  ultimately show ?thesis by simp
qed

lemma balanced_released:
  assumes "balanced st" and "ptr \<in> set (outstanding st)"
  shows "balanced (released st ptr p)"
proof -
  have "0 < length (outstanding st)" using assms(2) by (rule length_pos_if_in_set)
  then have "Suc (length (outstanding st) - 1) = length (outstanding st)" by arith
  with assms show ?thesis
    by (simp add: balanced_def released_def length_remove1 del: length_greater_0_conv)
qed

lemma balanced_allocated: "balanced st \<Longrightarrow> balanced (allocated st ptr p)"
  by (simp add: balanced_def allocated_def)

lemma released_fields [simp]:
  "pool (released st ptr p) = p" "outstanding (released st ptr p) = remove1 ptr (outstanding st)"
  by (simp_all add: released_def)

lemma allocated_fields [simp]:
  "pool (allocated st ptr p) = p"
  "outstanding (allocated st ptr p) = (if ptr \<noteq> 0 then ptr # outstanding st else outstanding st)"
  by (simp_all add: allocated_def)

lemma fixed_step_invariant:
  assumes "fixed_inv C (pool st) (outstanding st) \<and> balanced st" and "0 < sizeof_T C"
    and "owns st c"
  shows "\<exists>st'. Fixed_step C st c = Inr st' \<and>
           fixed_inv C (pool st') (outstanding st') \<and> balanced st'"
proof (cases c)
  case (New_object v u)
  from fixed_inv_new_object [of C "pool st" "outstanding st" v] assms
  obtain ptr p' where "Fixed_new_object C (pool st) v = Inr (ptr, p')"
    "if ptr \<noteq> 0 then fixed_inv C p' (ptr # outstanding st) else fixed_inv C p' (outstanding st)"
    by blast
  with assms(1) New_object show ?thesis
    by (auto simp: Fixed_step_def balanced_allocated)
next
  case (Delete_object ptr)
  with assms(3) have in_lv: "ptr \<in> set (outstanding st)" by (simp add: owns_def)
  from fixed_inv_delete_object [OF _ assms(2) in_lv] assms(1)
  obtain p' where "Fixed_delete_object C (pool st) ptr = Inr p'"
    "fixed_inv C p' (remove1 ptr (outstanding st))"
    by blast
  with assms(1) Delete_object in_lv show ?thesis
    by (simp add: Fixed_step_def balanced_released)
qed

lemma fixed_get_stats:
  assumes "fixed_inv C p lv" and "0 < sizeof_T C"
  shows "Fixed_get_stats C p = Inr \<lparr> block_count = 1, allocation_count = length lv \<rparr>"
proof -
  from assms(1) obtain b where b: "fixed_block p = Some b" "block_inv b" "distinct lv"
    "set lv = set (live_ptrs C b)"
    by (auto simp: fixed_inv_def split: option.splits)
  have "length lv = length (live_ptrs C b)"
    using b(3) distinct_live_ptrs [OF assms(2)] b(4) by (rule same_set_length)
  then show ?thesis
    using b(1) by (simp add: Fixed_get_stats_def for_each_live_ptrs [OF b(2)] fold_count_Suc)
qed

lemma fixed_inv_ctor:
  assumes "FixedMemoryPool_ctor C mem n = Inr p" and "fixed_block p \<noteq> None"
  shows "fixed_inv C p []"
proof -
  from assms obtain b where b: "create C mem n = Inr (Some b)" "fixed_block p = Some b"
    by (auto simp: FixedMemoryPool_ctor_def split: sum.splits)
  from b(1) have "b = MemoryPoolBlock_ctor mem n"
    by (auto simp: create_def Let_def split: if_splits)
  with b show ?thesis
    by (simp add: fixed_inv_def create_block_inv live_ptrs_ctor)
qed

lemma fixed_run:
  assumes "FixedMemoryPool_ctor C mem n = Inr p" and "fixed_block p \<noteq> None"
    and "0 < sizeof_T C" and "follows owns (Fixed_step C) (start p) cs"
  shows "\<exists>st. run (Fixed_step C) (start p) cs = Inr st \<and>
           fixed_inv C (pool st) (outstanding st) \<and> balanced st"
proof (rule run_invariant [where pre = owns])
  show "\<exists>st'. Fixed_step C st c = Inr st' \<and> fixed_inv C (pool st') (outstanding st') \<and> balanced st'"
    if "fixed_inv C (pool st) (outstanding st) \<and> balanced st" and "owns st c"
    for st and c :: "('a, unit) call"
    using that(1) assms(3) that(2) by (rule fixed_step_invariant)
  show "fixed_inv C (pool (start p)) (outstanding (start p)) \<and> balanced (start p)"
    using fixed_inv_ctor [OF assms(1,2)] by (simp add: start_def balanced_def)
  show "follows owns (Fixed_step C) (start p) cs" by (rule assms(4))
qed

subsection \<open>Blocks of a DynamicMemoryPool: memory ranges and the search for a free block\<close>

lemma align_to_ge:
  assumes "0 < a"
  shows "n \<le> align_to n a"
proof -
  have "n + a - 1 = (n + a - 1) div a * a + (n + a - 1) mod a" by simp
  moreover have "(n + a - 1) mod a < a" using assms by simp
  ultimately have "n + a - 1 < (n + a - 1) div a * a + a" by linarith
  then show ?thesis using assms by (simp add: align_to_def)
qed

lemma entries_within_block:
  assumes "0 < alignof_T C" and "entries_per_block b = n" and "in_entries C n b ptr"
  shows "this_ptr b \<le> ptr \<and> ptr < this_ptr b + block_size C n"
  using assms align_to_ge [OF assms(1), of "sizeof_index_t * unat n"]
  by (simp add: in_entries_def memory_begin_def indices_begin_def block_size_def Let_def)

lemma apart_not_in_entries:
  assumes "0 < alignof_T C" and "entries_per_block a = n" and "entries_per_block b = n"
    and "apart C n (this_ptr a) (this_ptr b)" and "in_entries C n a ptr"
  shows "\<not> in_entries C n b ptr"
proof
  assume "in_entries C n b ptr"
  from entries_within_block [OF assms(1,2,5)] entries_within_block [OF assms(1,3) this] assms(4)
  show False by (auto simp: apart_def)
qed

lemma entry_ptr_in_entries:
  assumes "0 < sizeof_T C" and "unat w < unat (entries_per_block b)"
  shows "in_entries C (entries_per_block b) b (entry_ptr C b w)"
  using assms by (simp add: in_entries_def entry_ptr_def)

lemma live_ptrs_in_entries:
  assumes "0 < sizeof_T C" and "ptr \<in> set (live_ptrs C b)"
  shows "in_entries C (entries_per_block b) b ptr"
proof -
  from assms(2) obtain i where i: "i < unat (entries_per_block b)"
    "ptr = entry_ptr C b (word_of_nat i)"
    by (auto simp: set_live_ptrs)
  show ?thesis
    unfolding i(2) using assms(1) i(1)
    by (intro entry_ptr_in_entries) (simp_all add: unat_word_of_nat_less)
qed

lemma dyn_inv_iff:
  "dyn_inv C p lv \<longleftrightarrow>
     length (block_info p) = unat (num_blocks p) \<and>
     free_block_index p < num_blocks p \<and>
     pool_entries_per_block p \<noteq> 0 \<and>
     layout_ok C (pool_entries_per_block p) \<and>
     (\<forall>j<length (block_info p). info_inv C (pool_entries_per_block p) (block_info p ! j)) \<and>
     (\<forall>j<length (block_info p). \<forall>k<length (block_info p). j \<noteq> k \<longrightarrow>
        apart C (pool_entries_per_block p)
          (this_ptr (block (block_info p ! j))) (this_ptr (block (block_info p ! k)))) \<and>
     distinct lv \<and> set lv = set (all_live C p)"
  unfolding dyn_inv_def list_all_upt list_all_length by auto

lemma set_all_live:
  "set (all_live C p) =
     {ptr. \<exists>k<length (block_info p). ptr \<in> set (live_ptrs C (block (block_info p ! k)))}"
  (is "?L = ?R")
proof (intro set_eqI iffI)
  fix x assume "x \<in> ?L"
  then obtain info where "info \<in> set (block_info p)" "x \<in> set (live_ptrs C (block info))"
    by (auto simp: all_live_def)
  then show "x \<in> ?R" by (auto simp: in_set_conv_nth)
next
  fix x assume "x \<in> ?R"
  then obtain k where "k < length (block_info p)" "x \<in> set (live_ptrs C (block (block_info p ! k)))"
    by auto
  then have "\<exists>info\<in>set (block_info p). x \<in> set (live_ptrs C (block info))"
    using nth_mem by blast
  then show "x \<in> ?L" by (simp add: all_live_def)
qed

lemma find_free_spec:
  assumes "n \<le> length infos"
  shows "i \<le> n \<Longrightarrow>
    \<exists>k. find_free infos n i = Inr k \<and> i \<le> k \<and> k \<le> n \<and>
        (k < n \<longrightarrow> num_free (infos ! k) \<noteq> 0) \<and>
        (\<forall>m. i \<le> m \<and> m < k \<longrightarrow> num_free (infos ! m) = 0)"
proof (induction "n - i" arbitrary: i)
  case 0
  then have "i = n" by simp
  then show ?case by (subst find_free.simps) auto
next
  case (Suc d)
  then have lt: "i < n" by simp
  show ?case
  proof (cases "num_free (infos ! i) = 0")
    case False
    with lt assms show ?thesis by (subst find_free.simps) auto
  next
    case True
    have d: "d = n - Suc i" using Suc.hyps(2) by simp
    have le: "Suc i \<le> n" using lt by simp
    from Suc.hyps(1) [OF d le]
    obtain k where k: "find_free infos n (Suc i) = Inr k" "Suc i \<le> k" "k \<le> n"
      "k < n \<longrightarrow> num_free (infos ! k) \<noteq> 0"
      "\<forall>m. Suc i \<le> m \<and> m < k \<longrightarrow> num_free (infos ! m) = 0"
      by blast
    have "find_free infos n i = Inr k"
      using True lt assms k(1) by (subst find_free.simps) simp
    moreover have "num_free (infos ! m) = 0" if "i \<le> m \<and> m < k" for m
    proof (cases "m = i")
      case True
      with \<open>num_free (infos ! i) = 0\<close> show ?thesis by simp
    next
      case False
      with that have "Suc i \<le> m \<and> m < k" by simp
      with k(5) show ?thesis by blast
    qed
    ultimately show ?thesis using k(2,3,4) by auto
  qed
qed

subsection \<open>Allocation in a DynamicMemoryPool\<close>

lemma create_ok:
  assumes "mem \<noteq> 0" and "layout_ok C n"
  shows "create C mem n = Inr (Some (MemoryPoolBlock_ctor mem n))"
proof -
  have "indices_begin (MemoryPoolBlock_ctor mem n) = mem + sizeof_MemoryPoolBlock"
    by (simp add: indices_begin_def MemoryPoolBlock_ctor_def)
  moreover have "memory_begin (MemoryPoolBlock_ctor mem n) =
      mem + sizeof_MemoryPoolBlock + sizeof_index_t * unat n"
    by (simp add: memory_begin_def indices_begin_def MemoryPoolBlock_ctor_def)
  ultimately show ?thesis
    using assms by (auto simp: create_def Let_def layout_ok_def assert_fails_def)
qed

lemma unat_plus_one: "(w :: index_t) + 1 \<noteq> 0 \<Longrightarrow> unat (w + 1) = Suc (unat w)"
  using unatSuc [of w] by (simp add: add.commute)

lemma unat_minus_one_word: "(w :: index_t) \<noteq> 0 \<Longrightarrow> Suc (unat (w - 1)) = unat w"
  using unat_minus_one [of w] unat_gt_0 [of w] by simp

lemma live_disjoint:
  assumes inv: "dyn_inv C p lv" and cfg: "0 < sizeof_T C" "0 < alignof_T C"
    and jk: "j < length (block_info p)" "k < length (block_info p)" "j \<noteq> k"
    and ptr: "ptr \<in> set (live_ptrs C (block (block_info p ! j)))"
  shows "\<not> in_entries C (pool_entries_per_block p) (block (block_info p ! k)) ptr"
proof -
  let ?n = "pool_entries_per_block p"
  from inv jk have ij: "info_inv C ?n (block_info p ! j)" and ik: "info_inv C ?n (block_info p ! k)"
    and ap: "apart C ?n (this_ptr (block (block_info p ! j))) (this_ptr (block (block_info p ! k)))"
    by (simp_all add: dyn_inv_iff)
  from ij have ej: "entries_per_block (block (block_info p ! j)) = ?n" by (simp add: info_inv_def)
  from ik have ek: "entries_per_block (block (block_info p ! k)) = ?n" by (simp add: info_inv_def)
  have "in_entries C ?n (block (block_info p ! j)) ptr"
    using live_ptrs_in_entries [OF cfg(1) ptr] ej by simp
  with cfg(2) ej ek ap show ?thesis by (rule apart_not_in_entries)
qed

text \<open>Replacing the record of one block by a record of the same block after a call.\<close>

lemma dyn_inv_update:
  assumes inv: "dyn_inv C p lv" and cfg: "0 < sizeof_T C" "0 < alignof_T C"
    and k: "k < length (block_info p)"
    and info: "info_inv C (pool_entries_per_block p) info'"
    and same: "this_ptr (block info') = this_ptr (block (block_info p ! k))"
    and f: "f < num_blocks p"
    and lv': "distinct lv'"
      "set lv' = (set lv - set (live_ptrs C (block (block_info p ! k)))) \<union>
                 set (live_ptrs C (block info'))"
  shows "dyn_inv C (p\<lparr>free_block_index := f, block_info := (block_info p)[k := info']\<rparr>) lv'"
proof -
  let ?p' = "p\<lparr>free_block_index := f, block_info := (block_info p)[k := info']\<rparr>"
  let ?n = "pool_entries_per_block p"
  have others: "ptr \<notin> set (live_ptrs C (block (block_info p ! k)))"
    if "m < length (block_info p)" "m \<noteq> k" "ptr \<in> set (live_ptrs C (block (block_info p ! m)))"
    for m ptr
  proof
    assume "ptr \<in> set (live_ptrs C (block (block_info p ! k)))"
    then have "in_entries C (entries_per_block (block (block_info p ! k))) (block (block_info p ! k)) ptr"
      by (rule live_ptrs_in_entries [OF cfg(1)])
    moreover have "entries_per_block (block (block_info p ! k)) = ?n"
      using inv k by (simp add: dyn_inv_iff info_inv_def)
    ultimately show False
      using live_disjoint [OF inv cfg that(1) k that(2,3)] by simp
  qed
  have "set (all_live C ?p') =
      (set (all_live C p) - set (live_ptrs C (block (block_info p ! k)))) \<union>
       set (live_ptrs C (block info'))"
    unfolding set_all_live
  proof (intro set_eqI iffI)
    fix x
    assume "x \<in> {ptr. \<exists>m<length (block_info ?p'). ptr \<in> set (live_ptrs C (block (block_info ?p' ! m)))}"
    then obtain m where m: "m < length (block_info p)"
      "x \<in> set (live_ptrs C (block (block_info ?p' ! m)))" by auto
    show "x \<in> {ptr. \<exists>m<length (block_info p). ptr \<in> set (live_ptrs C (block (block_info p ! m)))}
        - set (live_ptrs C (block (block_info p ! k))) \<union> set (live_ptrs C (block info'))"
    proof (cases "m = k")
      case True
      with m k show ?thesis by simp
    next
      case False
      with m have "x \<in> set (live_ptrs C (block (block_info p ! m)))" by simp
      with others [OF m(1) False this] m(1) show ?thesis by auto
    qed
  next
    fix x
    assume x: "x \<in> {ptr. \<exists>m<length (block_info p). ptr \<in> set (live_ptrs C (block (block_info p ! m)))}
        - set (live_ptrs C (block (block_info p ! k))) \<union> set (live_ptrs C (block info'))"
    show "x \<in> {ptr. \<exists>m<length (block_info ?p'). ptr \<in> set (live_ptrs C (block (block_info ?p' ! m)))}"
    proof (cases "x \<in> set (live_ptrs C (block info'))")
      case True
      with k show ?thesis by (auto intro!: exI [of _ k])
    next
      case False
      with x obtain m where m: "m < length (block_info p)"
        "x \<in> set (live_ptrs C (block (block_info p ! m)))"
        "x \<notin> set (live_ptrs C (block (block_info p ! k)))" by auto
      then have "m \<noteq> k" by auto
      with m show ?thesis by (auto intro!: exI [of _ m])
    qed
  qed
  with lv' inv have sets: "set lv' = set (all_live C ?p')" by (simp add: dyn_inv_iff)
  from inv have old_infos: "\<And>j. j < length (block_info p) \<Longrightarrow> info_inv C ?n (block_info p ! j)"
    and old_ap: "\<And>i j. i < length (block_info p) \<Longrightarrow> j < length (block_info p) \<Longrightarrow> i \<noteq> j \<Longrightarrow>
      apart C ?n (this_ptr (block (block_info p ! i))) (this_ptr (block (block_info p ! j)))"
    and len: "length (block_info p) = unat (num_blocks p)"
    and rest: "?n \<noteq> 0" "layout_ok C ?n"
    by (simp_all add: dyn_inv_iff)
  have this': "this_ptr (block ((block_info p)[k := info'] ! j)) = this_ptr (block (block_info p ! j))"
    if "j < length (block_info p)" for j
    using that same by (cases "j = k") simp_all
  have infos: "info_inv C ?n ((block_info p)[k := info'] ! j)" if "j < length (block_info p)" for j
    using that info old_infos by (cases "j = k") simp_all
  have ap: "apart C ?n (this_ptr (block ((block_info p)[k := info'] ! i)))
      (this_ptr (block ((block_info p)[k := info'] ! j)))"
    if "i < length (block_info p)" "j < length (block_info p)" "i \<noteq> j" for i j
    using that old_ap by (simp add: this')
  show ?thesis
    unfolding dyn_inv_iff
    using len f lv'(1) sets infos ap rest by simp
qed

lemma info_inv_new:
  assumes info: "info_inv C n info" and cfg: "0 < sizeof_T C" and nz: "num_free info \<noteq> 0"
  shows "free_head_index (block info) \<noteq> entries_per_block (block info)"
    and "info_inv C n (info\<lparr>block := new_object_post (block info) v, num_free := num_free info - 1\<rparr>)"
proof -
  let ?b = "block info"
  from info have b: "block_inv ?b" "entries_per_block ?b = n" "offset info = memory_offset ?b"
    "unat (num_free info) + length (live_ptrs C ?b) = unat n"
    by (simp_all add: info_inv_def)
  from nz have "0 < unat (num_free info)" by (simp add: unat_gt_0)
  with b(2,4) have "length (live_ptrs C ?b) < unat (entries_per_block ?b)" by simp
  with b(1) show ne: "free_head_index ?b \<noteq> entries_per_block ?b" by (rule not_full_head)
  have "memory_offset (new_object_post ?b v) = memory_offset ?b"
    by (simp add: memory_offset_def memory_begin_def indices_begin_def new_object_post_def)
  moreover have "entries_per_block (new_object_post ?b v) = n"
    using b(2) by (simp add: new_object_post_def)
  moreover have "unat (num_free info - 1) + length (live_ptrs C (new_object_post ?b v)) = unat n"
    using b(4) unat_minus_one_word [OF nz] length_live_ptrs_new [OF b(1) ne cfg, of v] by simp
  ultimately show "info_inv C n (info\<lparr>block := new_object_post ?b v, num_free := num_free info - 1\<rparr>)"
    using b(3) block_inv_new_object_post [OF b(1) ne] by (simp add: info_inv_def)
qed

lemma dyn_new_found:
  assumes inv: "dyn_inv C p lv" and cfg: "0 < sizeof_T C" "0 < alignof_T C"
    and k: "find_free (block_info p) (unat (num_blocks p)) (unat (free_block_index p)) = Inr k"
      "k < unat (num_blocks p)" "num_free (block_info p ! k) \<noteq> 0"
  shows "Dynamic_new_object C p v h =
      Inr (entry_ptr C (block (block_info p ! k)) (free_head_index (block (block_info p ! k))),
           p\<lparr>free_block_index := word_of_nat k,
             block_info := (block_info p)[k := (block_info p ! k)
               \<lparr>block := new_object_post (block (block_info p ! k)) v,
                num_free := num_free (block_info p ! k) - 1\<rparr>]\<rparr>)"
    and "dyn_inv C (p\<lparr>free_block_index := word_of_nat k,
             block_info := (block_info p)[k := (block_info p ! k)
               \<lparr>block := new_object_post (block (block_info p ! k)) v,
                num_free := num_free (block_info p ! k) - 1\<rparr>]\<rparr>)
          (entry_ptr C (block (block_info p ! k)) (free_head_index (block (block_info p ! k))) # lv)"
    and "entry_ptr C (block (block_info p ! k)) (free_head_index (block (block_info p ! k))) \<notin> set lv"
proof -
  let ?info = "block_info p ! k"
  let ?b = "block ?info"
  let ?ptr = "entry_ptr C ?b (free_head_index ?b)"
  let ?info' = "?info\<lparr>block := new_object_post ?b v, num_free := num_free ?info - 1\<rparr>"
  from inv have len: "length (block_info p) = unat (num_blocks p)"
    and fbi: "free_block_index p < num_blocks p"
    by (simp_all add: dyn_inv_iff)
  have klen: "k < length (block_info p)" using k(2) len by simp
  from inv klen have info: "info_inv C (pool_entries_per_block p) ?info"
    by (simp add: dyn_inv_iff)
  then have b: "block_inv ?b" "entries_per_block ?b = pool_entries_per_block p"
    by (simp_all add: info_inv_def)
  have ne: "free_head_index ?b \<noteq> entries_per_block ?b"
    using info cfg(1) k(3) by (rule info_inv_new)
  have info': "info_inv C (pool_entries_per_block p) ?info'"
    using info cfg(1) k(3) by (rule info_inv_new)
  have uk: "unat (word_of_nat k :: index_t) = k" using k(2) by (rule unat_word_of_nat_less)
  then have kne: "(word_of_nat k :: index_t) \<noteq> num_blocks p" using k(2) by auto
  have klt: "(word_of_nat k :: index_t) < num_blocks p"
    using uk k(2) by (simp add: word_less_nat_alt)
  have new: "new_object C ?b v = Inr (?ptr, new_object_post ?b v)"
    using b(1) ne by (rule new_object_free)
  show "Dynamic_new_object C p v h =
      Inr (?ptr, p\<lparr>free_block_index := word_of_nat k, block_info := (block_info p)[k := ?info']\<rparr>)"
    using fbi k(1) kne new
    by (simp add: Dynamic_new_object_def assert_fails_def Let_def entry_ptr_nonzero)
  have hd_in: "in_entries C (pool_entries_per_block p) ?b ?ptr"
    using entry_ptr_in_entries [OF cfg(1) block_inv_head(1) [OF b(1) ne]] b(2) by simp
  show notin: "?ptr \<notin> set lv"
  proof
    assume "?ptr \<in> set lv"
    with inv have "?ptr \<in> set (all_live C p)" by (simp add: dyn_inv_iff)
    then obtain m where m: "m < length (block_info p)"
      "?ptr \<in> set (live_ptrs C (block (block_info p ! m)))"
      by (auto simp: set_all_live)
    show False
    proof (cases "m = k")
      case True
      with m(2) head_not_in_live_ptrs [OF b(1) ne cfg(1)] show False by simp
    next
      case False
      from live_disjoint [OF inv cfg m(1) klen False m(2)] hd_in show False by simp
    qed
  qed
  have "dyn_inv C (p\<lparr>free_block_index := word_of_nat k, block_info := (block_info p)[k := ?info']\<rparr>)
      (?ptr # lv)"
  proof (rule dyn_inv_update [OF inv cfg klen info' _ klt])
    show "this_ptr (block ?info') = this_ptr ?b" by (simp add: new_object_post_def)
    show "distinct (?ptr # lv)" using notin inv by (simp add: dyn_inv_iff)
    have "set (live_ptrs C ?b) \<subseteq> set lv"
      using inv klen by (auto simp: dyn_inv_iff set_all_live)
    then show "set (?ptr # lv) = set lv - set (live_ptrs C ?b) \<union> set (live_ptrs C (block ?info'))"
      by (auto simp: set_live_ptrs_new [OF b(1) ne])
  qed
  then show "dyn_inv C (p\<lparr>free_block_index := word_of_nat k, block_info := (block_info p)[k := ?info']\<rparr>)
      (?ptr # lv)" .
qed

lemma apart_sym: "apart C n a b \<Longrightarrow> apart C n b a"
  by (auto simp: apart_def)

lemma ctor_fields [simp]:
  "this_ptr (MemoryPoolBlock_ctor mem n) = mem"
  "entries_per_block (MemoryPoolBlock_ctor mem n) = n"
  "free_head_index (MemoryPoolBlock_ctor mem n) = 0"
  by (simp_all add: MemoryPoolBlock_ctor_def)

lemma new_object_post_fields [simp]:
  "this_ptr (new_object_post b v) = this_ptr b"
  "entries_per_block (new_object_post b v) = entries_per_block b"
  "memory_offset (new_object_post b v) = memory_offset b"
  by (simp_all add: new_object_post_def memory_offset_def memory_begin_def indices_begin_def)

lemma delete_object_post_fields [simp]:
  "this_ptr (delete_object_post b i) = this_ptr b"
  "entries_per_block (delete_object_post b i) = entries_per_block b"
  "memory_offset (delete_object_post b i) = memory_offset b"
  by (simp_all add: delete_object_post_def memory_offset_def memory_begin_def indices_begin_def)

lemma info_inv_fresh:
  "info_inv C n \<lparr>num_free = n,
                 offset = memory_offset (MemoryPoolBlock_ctor mem n :: 'a MemoryPoolBlock),
                 block = (MemoryPoolBlock_ctor mem n :: 'a MemoryPoolBlock)\<rparr>"
  by (simp add: info_inv_def block_inv_ctor live_ptrs_ctor)

lemma add_block_ok:
  fixes p :: "'a DynamicMemoryPool"
  assumes len: "length (block_info p) = unat (num_blocks p)"
    and fbi: "free_block_index p = num_blocks p"
    and lay: "layout_ok C (pool_entries_per_block p)"
    and host: "malloc_ptr h \<noteq> 0" "realloc_ok h"
    and room: "num_blocks p + 1 \<noteq> 0"
  shows "add_block C p h =
      Inr (Some (unat (num_blocks p)),
           p\<lparr>num_blocks := num_blocks p + 1,
             block_info := block_info p @
               [\<lparr>num_free = pool_entries_per_block p,
                 offset = memory_offset (MemoryPoolBlock_ctor (malloc_ptr h) (pool_entries_per_block p)
                            :: 'a MemoryPoolBlock),
                 block = MemoryPoolBlock_ctor (malloc_ptr h) (pool_entries_per_block p)\<rparr>]\<rparr>)"
proof -
  have u: "unat (num_blocks p + 1) = Suc (length (block_info p))"
    using unat_plus_one [OF room] len by simp
  show ?thesis
    using fbi host
    by (simp add: add_block_def assert_fails_def Let_def create_ok [OF host(1) lay]
        u len [symmetric] realloc_array_def)
qed

lemma create_layout_ok:
  "create C mem n = Inr (Some b) \<Longrightarrow> layout_ok C n"
  by (auto simp: create_def Let_def layout_ok_def assert_fails_def memory_begin_def
      indices_begin_def split: if_splits)

lemma all_live_append:
  "all_live C (p\<lparr>block_info := block_info p @ [info]\<rparr>) = all_live C p @ live_ptrs C (block info)"
  by (simp add: all_live_def)

lemma all_live_other_fields [simp]:
  "all_live C (p\<lparr>free_block_index := f\<rparr>) = all_live C p"
  "all_live C (p\<lparr>num_blocks := n\<rparr>) = all_live C p"
  by (simp_all add: all_live_def)

text \<open>Appending the record of a block on fresh memory.\<close>

lemma dyn_inv_append:
  assumes inv: "dyn_inv C p lv" and cfg: "0 < sizeof_T C" "0 < alignof_T C"
    and info: "info_inv C (pool_entries_per_block p) info"
    and fresh: "list_all (\<lambda>old. apart C (pool_entries_per_block p) (this_ptr (block info))
                  (this_ptr (block old))) (block_info p)"
    and room: "num_blocks p + 1 \<noteq> 0"
    and f: "f < num_blocks p + 1"
    and lv': "distinct lv'" "set lv' = set lv \<union> set (live_ptrs C (block info))"
  shows "dyn_inv C (p\<lparr>free_block_index := f, num_blocks := num_blocks p + 1,
                     block_info := block_info p @ [info]\<rparr>) lv'"
proof -
  let ?n = "pool_entries_per_block p"
  let ?len = "length (block_info p)"
  from inv have old_infos: "\<And>j. j < ?len \<Longrightarrow> info_inv C ?n (block_info p ! j)"
    and old_ap: "\<And>i j. i < ?len \<Longrightarrow> j < ?len \<Longrightarrow> i \<noteq> j \<Longrightarrow>
      apart C ?n (this_ptr (block (block_info p ! i))) (this_ptr (block (block_info p ! j)))"
    and len: "?len = unat (num_blocks p)"
    and rest: "?n \<noteq> 0" "layout_ok C ?n"
    and lv: "set lv = set (all_live C p)"
    by (simp_all add: dyn_inv_iff)
  from fresh have new_ap: "\<And>j. j < ?len \<Longrightarrow>
      apart C ?n (this_ptr (block info)) (this_ptr (block (block_info p ! j)))"
    by (simp add: list_all_length)
  have u: "unat (num_blocks p + 1) = Suc ?len"
    using unat_plus_one [OF room] len by simp
  have infos: "info_inv C ?n ((block_info p @ [info]) ! j)" if "j < Suc ?len" for j
    using that info old_infos by (cases "j = ?len") (simp_all add: nth_append)
  have ap: "apart C ?n (this_ptr (block ((block_info p @ [info]) ! i)))
      (this_ptr (block ((block_info p @ [info]) ! j)))"
    if "i < Suc ?len" "j < Suc ?len" "i \<noteq> j" for i j
  proof (cases "i = ?len")
    case True
    with that have "j < ?len" by simp
    with True new_ap [OF this] show ?thesis by (simp add: nth_append)
  next
    case False
    with that have i: "i < ?len" by simp
    show ?thesis
    proof (cases "j = ?len")
      case True
      with i apart_sym [OF new_ap [OF i]] show ?thesis by (simp add: nth_append)
    next
      case False
      with that have "j < ?len" by simp
      with i that(3) old_ap show ?thesis by (simp add: nth_append)
    qed
  qed
  have "set lv' = set (all_live C (p\<lparr>block_info := block_info p @ [info]\<rparr>))"
    using lv'(2) lv by (simp add: all_live_append)
  then have sets: "set lv' = set (all_live C (p\<lparr>free_block_index := f, num_blocks := num_blocks p + 1,
                     block_info := block_info p @ [info]\<rparr>))"
    by (simp add: all_live_def)
  show ?thesis
    unfolding dyn_inv_iff
    using u f lv'(1) sets infos ap rest by simp
qed

lemma dyn_new_grow:
  fixes p :: "'a DynamicMemoryPool"
  assumes inv: "dyn_inv C p lv" and cfg: "0 < sizeof_T C" "0 < alignof_T C"
    and k: "find_free (block_info p) (unat (num_blocks p)) (unat (free_block_index p)) =
            Inr (unat (num_blocks p))"
    and host: "host_ok C p h" and room: "num_blocks p + 1 \<noteq> 0"
  defines "blk \<equiv> MemoryPoolBlock_ctor (malloc_ptr h) (pool_entries_per_block p) :: 'a MemoryPoolBlock"
  defines "p' \<equiv> \<lambda>v. p\<lparr>free_block_index := num_blocks p, num_blocks := num_blocks p + 1,
             block_info := block_info p @
               [\<lparr>num_free = pool_entries_per_block p - 1, offset = memory_offset blk,
                 block = new_object_post blk v\<rparr>]\<rparr>"
  shows "Dynamic_new_object C p v h = Inr (entry_ptr C blk 0, p' v)"
    and "dyn_inv C (p' v) (entry_ptr C blk 0 # lv)"
    and "entry_ptr C blk 0 \<notin> set lv"
proof -
  let ?n = "pool_entries_per_block p"
  let ?info = "\<lparr>num_free = ?n, offset = memory_offset blk, block = blk\<rparr>"
  let ?info' = "\<lparr>num_free = ?n - 1, offset = memory_offset blk, block = new_object_post blk v\<rparr>"
  let ?ptr = "entry_ptr C blk 0"
  from inv have len: "length (block_info p) = unat (num_blocks p)"
    and fbi: "free_block_index p < num_blocks p"
    and nz: "?n \<noteq> 0" and lay: "layout_ok C ?n"
    by (simp_all add: dyn_inv_iff)
  from host have h: "malloc_ptr h \<noteq> 0" "realloc_ok h"
    and fresh: "list_all (\<lambda>old. apart C ?n (malloc_ptr h) (this_ptr (block old))) (block_info p)"
    by (simp_all add: host_ok_def)
  have inv_blk: "block_inv blk" unfolding blk_def by (rule block_inv_ctor)
  have ne: "free_head_index blk \<noteq> entries_per_block blk"
    using nz by (simp add: blk_def)
  have new: "new_object C blk v = Inr (?ptr, new_object_post blk v)"
    using new_object_free [OF inv_blk ne, of C v] by (simp add: blk_def)
  have add: "add_block C (p\<lparr>free_block_index := num_blocks p\<rparr>) h =
      Inr (Some (unat (num_blocks p)),
           p\<lparr>free_block_index := num_blocks p, num_blocks := num_blocks p + 1,
             block_info := block_info p @ [?info]\<rparr>)"
    using add_block_ok [of "p\<lparr>free_block_index := num_blocks p\<rparr>" C h] len lay h room
    by (simp add: blk_def)
  have nth: "(block_info p @ [?info]) ! unat (num_blocks p) = ?info"
    using len by (simp add: nth_append)
  have upd: "(block_info p @ [?info])[unat (num_blocks p) := x] = block_info p @ [x]" for x
    using len [symmetric] by simp
  show "Dynamic_new_object C p v h = Inr (?ptr, p' v)"
    using fbi k add new
    by (simp add: Dynamic_new_object_def assert_fails_def Let_def entry_ptr_nonzero p'_def
        nth upd)
  have info: "info_inv C ?n ?info" unfolding blk_def by (rule info_inv_fresh)
  have info': "info_inv C ?n ?info'"
    using info_inv_new(2) [OF info cfg(1), of v] nz by simp
  have in_new: "in_entries C ?n blk ?ptr"
    using entry_ptr_in_entries [OF cfg(1), of 0 blk] nz by (simp add: blk_def unat_gt_0)
  show notin: "?ptr \<notin> set lv"
  proof
    assume "?ptr \<in> set lv"
    with inv obtain m where m: "m < length (block_info p)"
      "?ptr \<in> set (live_ptrs C (block (block_info p ! m)))"
      by (auto simp: dyn_inv_iff set_all_live)
    from inv m(1) have em: "entries_per_block (block (block_info p ! m)) = ?n"
      by (simp add: dyn_inv_iff info_inv_def)
    have "in_entries C ?n (block (block_info p ! m)) ?ptr"
      using live_ptrs_in_entries [OF cfg(1) m(2)] em by simp
    moreover have "apart C ?n (this_ptr blk) (this_ptr (block (block_info p ! m)))"
      using fresh m(1) by (simp add: list_all_length blk_def)
    ultimately show False
      using apart_not_in_entries [OF cfg(2) _ em _ in_new] by (simp add: blk_def)
  qed
  have live': "set (live_ptrs C (new_object_post blk v)) = {?ptr}"
    using set_live_ptrs_new [OF inv_blk ne, of C v] by (simp add: blk_def live_ptrs_ctor)
  show "dyn_inv C (p' v) (?ptr # lv)"
    unfolding p'_def
  proof (rule dyn_inv_append [OF inv cfg info' _ room])
    show "list_all (\<lambda>old. apart C ?n (this_ptr (block ?info')) (this_ptr (block old))) (block_info p)"
      using fresh by (simp add: blk_def)
    show "num_blocks p < num_blocks p + 1"
      using unat_plus_one [OF room] by (simp add: word_less_nat_alt)
    show "distinct (?ptr # lv)" using notin inv by (simp add: dyn_inv_iff)
    show "set (?ptr # lv) = set lv \<union> set (live_ptrs C (block ?info'))"
      using live' by simp
  qed
qed

lemma entry_ptr_pos: "0 < entry_ptr C b i"
  using entry_ptr_nonzero [of C b i] by simp

lemma dyn_new_object_inv:
  assumes inv: "dyn_inv C p lv" and cfg: "0 < sizeof_T C" "0 < alignof_T C"
    and host: "host_ok C p h" and room: "num_blocks p + 1 \<noteq> 0"
  shows "\<exists>ptr p'. Dynamic_new_object C p v h = Inr (ptr, p') \<and> ptr \<noteq> 0 \<and>
           dyn_inv C p' (ptr # lv)"
proof -
  from inv have len: "length (block_info p) = unat (num_blocks p)"
    and fbi: "free_block_index p < num_blocks p"
    by (simp_all add: dyn_inv_iff)
  have "unat (free_block_index p) \<le> unat (num_blocks p)"
    using fbi by (simp add: word_less_nat_alt)
  from find_free_spec [OF _ this, of "block_info p"] len
  obtain k where k: "find_free (block_info p) (unat (num_blocks p)) (unat (free_block_index p)) = Inr k"
    "k \<le> unat (num_blocks p)" "k < unat (num_blocks p) \<longrightarrow> num_free (block_info p ! k) \<noteq> 0"
    by auto
  show ?thesis
  proof (cases "k < unat (num_blocks p)")
    case True
    with k(3) have nz: "num_free (block_info p ! k) \<noteq> 0" by simp
    note found = dyn_new_found [OF inv cfg k(1) True nz]
    from found(1) [of v h] found(2) [of v] show ?thesis
      by (auto simp: entry_ptr_pos)
  next
    case False
    with k(2) have "k = unat (num_blocks p)" by simp
    with k(1) have k': "find_free (block_info p) (unat (num_blocks p)) (unat (free_block_index p)) =
        Inr (unat (num_blocks p))" by simp
    note grow = dyn_new_grow [OF inv cfg k' host room]
    from grow(1) [of v] grow(2) [of v] show ?thesis
      by (auto simp: entry_ptr_pos)
  qed
qed

subsection \<open>Release in a DynamicMemoryPool\<close>

lemma info_inv_delete:
  assumes info: "info_inv C n info" and cfg: "0 < sizeof_T C"
    and i: "i < unat n" "live (block info) i"
  shows "info_inv C n (info\<lparr>block := delete_object_post (block info) i, num_free := num_free info + 1\<rparr>)"
proof -
  let ?b = "block info"
  from info have b: "block_inv ?b" "entries_per_block ?b = n" "offset info = memory_offset ?b"
    "unat (num_free info) + length (live_ptrs C ?b) = unat n"
    by (simp_all add: info_inv_def)
  have i': "i < unat (entries_per_block ?b)" using i(1) b(2) by simp
  have dec: "Suc (length (live_ptrs C (delete_object_post ?b i))) = length (live_ptrs C ?b)"
    using b(1) i' cfg i(2) by (rule length_live_ptrs_delete)
  have "unat n < 2 ^ 32" using unsigned_less [of n] by simp
  with b(4) dec have "unat (num_free info) + unat (1 :: index_t) < 2 ^ LENGTH(32)" by simp
  then have "unat (num_free info + 1) = unat (num_free info) + 1"
    using unat_add_lem [of "num_free info" 1] by simp
  with b(4) dec have "unat (num_free info + 1) + length (live_ptrs C (delete_object_post ?b i)) = unat n"
    by simp
  then show ?thesis
    using b(2,3) block_inv_delete_object_post [OF b(1) i' i(2)] by (simp add: info_inv_def)
qed

lemma delete_scan_skip:
  assumes inv: "dyn_inv C p lv" and cfg: "0 < sizeof_T C" "0 < alignof_T C"
    and j: "j < length (block_info p)" "ptr \<in> set (live_ptrs C (block (block_info p ! j)))"
  shows "i \<le> j \<Longrightarrow> delete_scan C p ptr i = delete_scan C p ptr j"
proof (induction "j - i" arbitrary: i)
  case 0
  then show ?case by simp
next
  case (Suc d)
  then have lt: "i < j" by simp
  from inv have len: "length (block_info p) = unat (num_blocks p)" by (simp add: dyn_inv_iff)
  have i: "i < length (block_info p)" using lt j(1) by simp
  from inv i have "offset (block_info p ! i) = memory_begin (block (block_info p ! i))"
    by (simp add: dyn_inv_iff info_inv_def memory_offset_def)
  moreover have "\<not> in_entries C (pool_entries_per_block p) (block (block_info p ! i)) ptr"
    using lt by (intro live_disjoint [OF inv cfg j(1) i _ j(2)]) simp
  ultimately have "delete_scan C p ptr i = delete_scan C p ptr (Suc i)"
    using i len by (subst delete_scan.simps) (auto simp: in_entries_def Let_def)
  moreover have "delete_scan C p ptr (Suc i) = delete_scan C p ptr j"
    by (rule Suc.hyps(1)) (use Suc.hyps(2) lt in simp_all)
  ultimately show ?case by simp
qed

lemma dyn_delete_object_inv:
  assumes inv: "dyn_inv C p lv" and cfg: "0 < sizeof_T C" "0 < alignof_T C"
    and ptr: "ptr \<in> set lv"
  shows "\<exists>p'. Dynamic_delete_object C p ptr = Inr p' \<and> dyn_inv C p' (remove1 ptr lv) \<and>
           num_blocks p' = num_blocks p"
proof -
  let ?n = "pool_entries_per_block p"
  from inv have len: "length (block_info p) = unat (num_blocks p)"
    and fbi: "free_block_index p < num_blocks p"
    and dlv: "distinct lv"
    by (simp_all add: dyn_inv_iff)
  from inv ptr obtain j where j: "j < length (block_info p)"
    "ptr \<in> set (live_ptrs C (block (block_info p ! j)))"
    by (auto simp: dyn_inv_iff set_all_live)
  let ?info = "block_info p ! j"
  let ?b = "block ?info"
  from inv j(1) have info: "info_inv C ?n ?info" by (simp add: dyn_inv_iff)
  then have b: "block_inv ?b" "entries_per_block ?b = ?n" "offset ?info = memory_begin ?b"
    by (simp_all add: info_inv_def memory_offset_def)
  from j(2) obtain i where i: "i < unat (entries_per_block ?b)" "live ?b i"
    "ptr = entry_ptr C ?b (word_of_nat i)"
    by (auto simp: set_live_ptrs)
  let ?info' = "?info\<lparr>block := delete_object_post ?b i, num_free := num_free ?info + 1\<rparr>"
  let ?f = "if (word_of_nat j :: index_t) < free_block_index p then word_of_nat j else free_block_index p"
  let ?p' = "p\<lparr>free_block_index := ?f, block_info := (block_info p)[j := ?info']\<rparr>"
  have in_j: "in_entries C ?n ?b ptr"
    using live_ptrs_in_entries [OF cfg(1) j(2)] b(2) by simp
  have del: "delete_object C ?b ptr = Inr (delete_object_post ?b i)"
    unfolding i(3) using b(1) cfg(1) i(1,2) by (rule delete_object_live)
  have "delete_scan C p ptr j = Inr ?p'"
    using j(1) len in_j b(3) del
    by (subst delete_scan.simps) (simp add: in_entries_def Let_def)
  then have run: "Dynamic_delete_object C p ptr = Inr ?p'"
    using delete_scan_skip [OF inv cfg j, of 0] by (simp add: Dynamic_delete_object_def)
  have uj: "unat (word_of_nat j :: index_t) = j"
    using j(1) len by (simp add: unat_word_of_nat_less)
  have flt: "?f < num_blocks p"
    using fbi uj j(1) len by (simp add: word_less_nat_alt)
  have info': "info_inv C ?n ?info'"
    using info cfg(1) i(1,2) b(2) by (intro info_inv_delete) simp_all
  have "dyn_inv C ?p' (remove1 ptr lv)"
  proof (rule dyn_inv_update [OF inv cfg j(1) info' _ flt])
    show "this_ptr (block ?info') = this_ptr ?b" by simp
    show "distinct (remove1 ptr lv)" using dlv by simp
    have sub: "set (live_ptrs C ?b) \<subseteq> set lv"
      using inv j(1) by (auto simp: dyn_inv_iff set_all_live)
    show "set (remove1 ptr lv) = set lv - set (live_ptrs C ?b) \<union> set (live_ptrs C (block ?info'))"
      using sub dlv j(2)
      by (auto simp: set_live_ptrs_delete [OF b(1) i(1) cfg(1)] i(3))
  qed
  with run show ?thesis by auto
qed

subsection \<open>Construction, statistics and enumeration of a DynamicMemoryPool\<close>

lemma dyn_ctor:
  fixes p :: "'a DynamicMemoryPool"
  assumes ctor: "DynamicMemoryPool_ctor C n h = Inr p"
    and host: "malloc_ptr h \<noteq> 0" "realloc_ok h" and nz: "n \<noteq> 0"
  shows "p = \<lparr>block_info = [\<lparr>num_free = n,
                 offset = memory_offset (MemoryPoolBlock_ctor (malloc_ptr h) n :: 'a MemoryPoolBlock),
                 block = MemoryPoolBlock_ctor (malloc_ptr h) n\<rparr>],
               num_blocks = 1, free_block_index = 0, pool_entries_per_block = n\<rparr>"
    and "dyn_inv C p []"
proof -
  let ?p0 = "\<lparr>block_info = [], num_blocks = 0, free_block_index = 0,
              pool_entries_per_block = n\<rparr> :: 'a DynamicMemoryPool"
  let ?blk = "MemoryPoolBlock_ctor (malloc_ptr h) n :: 'a MemoryPoolBlock"
  let ?info = "\<lparr>num_free = n, offset = memory_offset ?blk, block = ?blk\<rparr>"
  have "\<exists>b :: 'a MemoryPoolBlock. create C (malloc_ptr h) n = Inr (Some b)"
  proof (cases "create C (malloc_ptr h) n :: error + 'a MemoryPoolBlock option")
    case (Inl e)
    with ctor show ?thesis
      by (simp add: DynamicMemoryPool_ctor_def add_block_def assert_fails_def)
  next
    case (Inr x)
    with host(1) show ?thesis
      by (auto simp: create_def Let_def split: if_splits)
  qed
  then have lay: "layout_ok C n" by (auto dest: create_layout_ok)
  have add: "add_block C ?p0 h = Inr (Some 0, ?p0\<lparr>num_blocks := 1, block_info := [?info]\<rparr>)"
    using add_block_ok [of ?p0 C h] lay host by simp
  with ctor show p: "p = \<lparr>block_info = [?info], num_blocks = 1, free_block_index = 0,
      pool_entries_per_block = n\<rparr>"
    by (simp add: DynamicMemoryPool_ctor_def)
  have "info_inv C n ?info" by (rule info_inv_fresh)
  then show "dyn_inv C p []"
    unfolding p dyn_inv_iff using nz lay
    by (simp add: all_live_def live_ptrs_ctor)
qed

lemma distinct_concat_map:
  assumes "\<And>i. i < length xs \<Longrightarrow> distinct (f (xs ! i))"
    and "\<And>i j. i < j \<Longrightarrow> j < length xs \<Longrightarrow> set (f (xs ! i)) \<inter> set (f (xs ! j)) = {}"
  shows "distinct (concat (map f xs))"
  using assms
proof (induction xs)
  case Nil
  then show ?case by simp
next
  case (Cons x xs)
  have d: "distinct (f x)" using Cons.prems(1) [of 0] by simp
  have tl: "distinct (concat (map f xs))"
  proof (rule Cons.IH)
    show "distinct (f (xs ! i))" if "i < length xs" for i
      using Cons.prems(1) [of "Suc i"] that by simp
    show "set (f (xs ! i)) \<inter> set (f (xs ! j)) = {}" if "i < j" "j < length xs" for i j
      using Cons.prems(2) [of "Suc i" "Suc j"] that by simp
  qed
  have "set (f x) \<inter> set (f y) = {}" if "y \<in> set xs" for y
  proof -
    from that obtain j where "j < length xs" "y = xs ! j" by (auto simp: in_set_conv_nth)
    with Cons.prems(2) [of 0 "Suc j"] show ?thesis by simp
  qed
  with d tl show ?case by auto
qed

lemma distinct_all_live:
  assumes inv: "dyn_inv C p lv" and cfg: "0 < sizeof_T C" "0 < alignof_T C"
  shows "distinct (all_live C p)"
  unfolding all_live_def
proof (rule distinct_concat_map)
  show "distinct (live_ptrs C (block (block_info p ! i)))" for i
    using cfg(1) by (rule distinct_live_ptrs)
  show "set (live_ptrs C (block (block_info p ! i))) \<inter> set (live_ptrs C (block (block_info p ! j))) = {}"
    if "i < j" "j < length (block_info p)" for i j
  proof -
    have i: "i < length (block_info p)" and ne: "i \<noteq> j" using that by simp_all
    have "x \<notin> set (live_ptrs C (block (block_info p ! j)))"
      if x: "x \<in> set (live_ptrs C (block (block_info p ! i)))" for x
    proof
      assume "x \<in> set (live_ptrs C (block (block_info p ! j)))"
      then have "in_entries C (entries_per_block (block (block_info p ! j))) (block (block_info p ! j)) x"
        by (rule live_ptrs_in_entries [OF cfg(1)])
      moreover have "entries_per_block (block (block_info p ! j)) = pool_entries_per_block p"
        using inv \<open>j < length (block_info p)\<close> by (simp add: dyn_inv_iff info_inv_def)
      ultimately show False
        using live_disjoint [OF inv cfg i \<open>j < length (block_info p)\<close> ne x] by simp
    qed
    then show ?thesis by auto
  qed
qed

lemma pruned_block_empty:
  assumes "info_inv C n info" and "\<not> num_free info < n"
  shows "live_ptrs C (block info) = []"
proof -
  from assms(2) have "unat n \<le> unat (num_free info)" by (simp add: word_less_nat_alt)
  moreover from assms(1) have "unat (num_free info) + length (live_ptrs C (block info)) = unat n"
    by (simp add: info_inv_def)
  ultimately have "length (live_ptrs C (block info)) = 0" by arith
  then show ?thesis by simp
qed

lemma get_stats_from_inv:
  assumes inv: "dyn_inv C p lv"
  shows "i \<le> length (block_info p) \<Longrightarrow>
    get_stats_from C p i st =
      Inr (st\<lparr>block_count := block_count st + (length (block_info p) - i),
              allocation_count := allocation_count st +
                length (concat (map (\<lambda>info. live_ptrs C (block info)) (drop i (block_info p))))\<rparr>)"
proof (induction "length (block_info p) - i" arbitrary: i st)
  case 0
  with inv show ?case
    by (subst get_stats_from.simps) (simp add: dyn_inv_iff)
next
  case (Suc d)
  then have lt: "i < length (block_info p)" by simp
  from inv have len: "length (block_info p) = unat (num_blocks p)" by (simp add: dyn_inv_iff)
  from inv lt have info: "info_inv C (pool_entries_per_block p) (block_info p ! i)"
    by (simp add: dyn_inv_iff)
  then have cnt: "unat (count_allocations C (block (block_info p ! i))) =
      length (live_ptrs C (block (block_info p ! i)))"
    by (simp add: info_inv_def count_allocations_live)
  have dr: "drop i (block_info p) = block_info p ! i # drop (Suc i) (block_info p)"
    using lt by (simp add: Cons_nth_drop_Suc)
  have d: "d = length (block_info p) - Suc i" using Suc.hyps(2) by simp
  have le: "Suc i \<le> length (block_info p)" using lt by simp
  note IH = Suc.hyps(1) [OF d le]
  show ?case
  proof (cases "num_free (block_info p ! i) < pool_entries_per_block p")
    case True
    with lt len cnt show ?thesis
      by (subst get_stats_from.simps) (simp add: Let_def IH dr)
  next
    case False
    with lt len pruned_block_empty [OF info False] show ?thesis
      by (subst get_stats_from.simps) (simp add: Let_def IH dr)
  qed
qed

lemma for_each_from_inv:
  assumes inv: "dyn_inv C p lv"
  shows "i \<le> length (block_info p) \<Longrightarrow>
    for_each_from C p func i s =
      Inr (fold func (concat (map (\<lambda>info. live_ptrs C (block info)) (drop i (block_info p)))) s)"
proof (induction "length (block_info p) - i" arbitrary: i s)
  case 0
  with inv show ?case
    by (subst for_each_from.simps) (simp add: dyn_inv_iff)
next
  case (Suc d)
  then have lt: "i < length (block_info p)" by simp
  from inv have len: "length (block_info p) = unat (num_blocks p)" by (simp add: dyn_inv_iff)
  from inv lt have info: "info_inv C (pool_entries_per_block p) (block_info p ! i)"
    by (simp add: dyn_inv_iff)
  then have fe: "for_each C (block (block_info p ! i)) func s =
      fold func (live_ptrs C (block (block_info p ! i))) s"
    by (simp add: info_inv_def for_each_live_ptrs)
  have dr: "drop i (block_info p) = block_info p ! i # drop (Suc i) (block_info p)"
    using lt by (simp add: Cons_nth_drop_Suc)
  have d: "d = length (block_info p) - Suc i" using Suc.hyps(2) by simp
  have le: "Suc i \<le> length (block_info p)" using lt by simp
  note IH = Suc.hyps(1) [OF d le]
  show ?case
  proof (cases "num_free (block_info p ! i) < pool_entries_per_block p")
    case True
    with lt len fe show ?thesis
      by (subst for_each_from.simps) (simp add: Let_def IH dr)
  next
    case False
    with lt len pruned_block_empty [OF info False] show ?thesis
      by (subst for_each_from.simps) (simp add: Let_def IH dr)
  qed
qed

lemma dyn_get_stats:
  assumes inv: "dyn_inv C p lv" and cfg: "0 < sizeof_T C" "0 < alignof_T C"
  shows "Dynamic_get_stats C p =
    Inr \<lparr>block_count = unat (num_blocks p), allocation_count = length lv\<rparr>"
proof -
  have "length lv = length (all_live C p)"
    using inv distinct_all_live [OF inv cfg] by (intro same_set_length) (simp_all add: dyn_inv_iff)
  moreover from inv have "length (block_info p) = unat (num_blocks p)" by (simp add: dyn_inv_iff)
  ultimately show ?thesis
    by (simp add: Dynamic_get_stats_def get_stats_from_inv [OF inv] all_live_def)
qed

lemma dyn_for_each:
  assumes inv: "dyn_inv C p lv"
  shows "Dynamic_for_each C p func s = Inr (fold func (all_live C p) s)"
  by (simp add: Dynamic_for_each_def for_each_from_inv [OF inv] all_live_def)

lemma dyn_step_invariant:
  assumes I: "dyn_inv C (pool st) (outstanding st) \<and> balanced st"
    and cfg: "0 < sizeof_T C" "0 < alignof_T C" and pre: "Dynamic_pre C st c"
  shows "\<exists>st'. Dynamic_step C st c = Inr st' \<and>
           dyn_inv C (pool st') (outstanding st') \<and> balanced st'"
proof (cases c)
  case (New_object v h)
  with pre have "host_ok C (pool st) h" "num_blocks (pool st) + 1 \<noteq> 0"
    by (simp_all add: Dynamic_pre_def)
  from dyn_new_object_inv [OF _ cfg this, of "outstanding st" v] I
  obtain ptr p' where "Dynamic_new_object C (pool st) v h = Inr (ptr, p')" "ptr \<noteq> 0"
    "dyn_inv C p' (ptr # outstanding st)"
    by blast
  with I New_object show ?thesis
    by (simp add: Dynamic_step_def balanced_allocated)
next
  case (Delete_object ptr)
  with pre have in_lv: "ptr \<in> set (outstanding st)" by (simp add: Dynamic_pre_def owns_def)
  from dyn_delete_object_inv [OF _ cfg in_lv] I
  obtain p' where "Dynamic_delete_object C (pool st) ptr = Inr p'"
    "dyn_inv C p' (remove1 ptr (outstanding st))"
    by blast
  with I Delete_object in_lv show ?thesis
    by (simp add: Dynamic_step_def balanced_released)
qed

lemma dyn_run:
  assumes ctor: "DynamicMemoryPool_ctor C n h = Inr p"
    and host: "malloc_ptr h \<noteq> 0" "realloc_ok h" and nz: "n \<noteq> 0"
    and cfg: "0 < sizeof_T C" "0 < alignof_T C"
    and fol: "follows (Dynamic_pre C) (Dynamic_step C) (start p) cs"
  shows "\<exists>st. run (Dynamic_step C) (start p) cs = Inr st \<and>
           dyn_inv C (pool st) (outstanding st) \<and> balanced st"
proof (rule run_invariant [where pre = "Dynamic_pre C"])
  show "\<exists>st'. Dynamic_step C st c = Inr st' \<and> dyn_inv C (pool st') (outstanding st') \<and> balanced st'"
    if "dyn_inv C (pool st) (outstanding st) \<and> balanced st" and "Dynamic_pre C st c" for st c
    using that(1) cfg that(2) by (rule dyn_step_invariant)
  show "dyn_inv C (pool (start p)) (outstanding (start p)) \<and> balanced (start p)"
    using dyn_ctor(2) [OF ctor host nz] by (simp add: start_def balanced_def)
  show "follows (Dynamic_pre C) (Dynamic_step C) (start p) cs" by (rule fol)
qed

subsection \<open>The order of the blocks\<close>

lemma run_append:
  "run step st (xs @ ys) =
     (case run step st xs of Inl e \<Rightarrow> Inl e | Inr st1 \<Rightarrow> run step st1 ys)"
  by (induction xs arbitrary: st) (auto split: sum.splits)

lemma follows_append:
  "run step st xs = Inr st1 \<Longrightarrow>
   follows pre step st (xs @ ys) = (follows pre step st xs \<and> follows pre step st1 ys)"
  by (induction xs arbitrary: st) (auto split: sum.splits)

lemma block_addrs_other_fields [simp]:
  "block_addrs (p\<lparr>free_block_index := f\<rparr>) = block_addrs p"
  by (simp add: block_addrs_def)

lemma block_addrs_update:
  assumes "k < length (block_info p)" and "this_ptr (block info') = this_ptr (block (block_info p ! k))"
  shows "block_addrs (p\<lparr>free_block_index := f, block_info := (block_info p)[k := info']\<rparr>) = block_addrs p"
proof -
  have "map (\<lambda>info. this_ptr (block info)) ((block_info p)[k := info']) =
      (map (\<lambda>info. this_ptr (block info)) (block_info p))[k := this_ptr (block (block_info p ! k))]"
    using assms(2) by (simp add: map_update)
  also have "\<dots> = map (\<lambda>info. this_ptr (block info)) (block_info p)"
    using assms(1) by (metis list_update_id map_update)
  finally show ?thesis by (simp add: block_addrs_def)
qed

lemma dyn_new_object_addrs:
  assumes inv: "dyn_inv C p lv" and cfg: "0 < sizeof_T C" "0 < alignof_T C"
    and host: "host_ok C p h" and room: "num_blocks p + 1 \<noteq> 0"
    and new: "Dynamic_new_object C p v h = Inr (ptr, p')"
  shows "\<exists>extra. block_addrs p' = block_addrs p @ extra"
proof -
  from inv have len: "length (block_info p) = unat (num_blocks p)"
    and fbi: "free_block_index p < num_blocks p"
    by (simp_all add: dyn_inv_iff)
  have "unat (free_block_index p) \<le> unat (num_blocks p)"
    using fbi by (simp add: word_less_nat_alt)
  from find_free_spec [OF _ this, of "block_info p"] len
  obtain k where k: "find_free (block_info p) (unat (num_blocks p)) (unat (free_block_index p)) = Inr k"
    "k \<le> unat (num_blocks p)" "k < unat (num_blocks p) \<longrightarrow> num_free (block_info p ! k) \<noteq> 0"
    by auto
  show ?thesis
  proof (cases "k < unat (num_blocks p)")
    case True
    with k(3) have nz: "num_free (block_info p ! k) \<noteq> 0" by simp
    from dyn_new_found(1) [OF inv cfg k(1) True nz, of v h] new True len
    have "block_addrs p' = block_addrs p"
      by (auto simp: block_addrs_update)
    then show ?thesis by simp
  next
    case False
    with k(2) have "k = unat (num_blocks p)" by simp
    with k(1) have k': "find_free (block_info p) (unat (num_blocks p)) (unat (free_block_index p)) =
        Inr (unat (num_blocks p))" by simp
    from dyn_new_grow(1) [OF inv cfg k' host room, of v] new
    have "block_addrs p' = block_addrs p @ [malloc_ptr h]"
      by (auto simp: block_addrs_def)
    then show ?thesis by blast
  qed
qed

lemma delete_object_this_ptr:
  "delete_object C b ptr = Inr b' \<Longrightarrow> this_ptr b' = this_ptr b"
  by (auto simp: delete_object_def Let_def split: if_splits)

lemma delete_scan_addrs:
  "delete_scan C p ptr i = Inr p' \<Longrightarrow> block_addrs p' = block_addrs p"
proof (induction C p ptr i rule: delete_scan.induct)
  case (1 C p ptr i)
  show ?case
  proof (cases "i = unat (num_blocks p)")
    case True
    with "1.prems" show ?thesis by (subst (asm) delete_scan.simps) simp
  next
    case False
    note ne = this
    show ?thesis
    proof (cases "i < length (block_info p)")
      case False
      with ne "1.prems" show ?thesis by (subst (asm) delete_scan.simps) simp
    next
      case True
      note lt = this
      let ?info = "block_info p ! i"
      show ?thesis
      proof (cases "offset ?info \<le> ptr \<and> ptr < offset ?info + sizeof_T C * unat (pool_entries_per_block p)")
        case False
        with ne lt "1.prems" have "delete_scan C p ptr (Suc i) = Inr p'"
          by (subst (asm) delete_scan.simps) (simp add: Let_def)
        with "1.IH" [OF ne _ refl refl refl False] lt show ?thesis by simp
      next
        case True
        with ne lt "1.prems" obtain blk where blk: "delete_object C (block ?info) ptr = Inr blk"
          and p': "p' = (let q = p\<lparr>block_info := (block_info p)
                          [i := ?info\<lparr>block := blk, num_free := num_free ?info + 1\<rparr>]\<rparr>
                       in if (word_of_nat i :: index_t) < free_block_index q
                          then q\<lparr>free_block_index := word_of_nat i\<rparr> else q)"
          by (subst (asm) delete_scan.simps) (auto simp: Let_def split: sum.splits)
        have "block_addrs (p\<lparr>free_block_index := f, block_info := (block_info p)
                          [i := ?info\<lparr>block := blk, num_free := num_free ?info + 1\<rparr>]\<rparr>)
              = block_addrs p" for f
          using lt delete_object_this_ptr [OF blk] by (intro block_addrs_update) simp_all
        from this [of "free_block_index p"] show ?thesis
          unfolding p' by (simp add: Let_def)
      qed
    qed
  qed
qed

lemma dyn_step_addrs:
  assumes I: "dyn_inv C (pool st) (outstanding st)"
    and cfg: "0 < sizeof_T C" "0 < alignof_T C" and pre: "Dynamic_pre C st c"
    and step: "Dynamic_step C st c = Inr st'"
  shows "\<exists>extra. block_addrs (pool st') = block_addrs (pool st) @ extra"
proof (cases c)
  case (New_object v h)
  with pre have h: "host_ok C (pool st) h" "num_blocks (pool st) + 1 \<noteq> 0"
    by (simp_all add: Dynamic_pre_def)
  from step New_object obtain ptr p' where new: "Dynamic_new_object C (pool st) v h = Inr (ptr, p')"
    and st': "st' = allocated st ptr p'"
    by (auto simp: Dynamic_step_def split: sum.splits)
  from dyn_new_object_addrs [OF I cfg h new] st' show ?thesis by simp
next
  case (Delete_object ptr)
  with step obtain p' where "Dynamic_delete_object C (pool st) ptr = Inr p'"
    and st': "st' = released st ptr p'"
    by (auto simp: Dynamic_step_def split: sum.splits)
  then have "block_addrs p' = block_addrs (pool st)"
    by (simp add: Dynamic_delete_object_def delete_scan_addrs)
  with st' show ?thesis by simp
qed

lemma dyn_run_addrs:
  assumes cfg: "0 < sizeof_T C" "0 < alignof_T C"
  shows "dyn_inv C (pool st) (outstanding st) \<and> balanced st \<Longrightarrow>
         follows (Dynamic_pre C) (Dynamic_step C) st cs \<Longrightarrow>
         run (Dynamic_step C) st cs = Inr st' \<Longrightarrow>
         \<exists>extra. block_addrs (pool st') = block_addrs (pool st) @ extra"
proof (induction cs arbitrary: st)
  case Nil
  then show ?case by simp
next
  case (Cons c cs)
  from Cons.prems(2) have pre: "Dynamic_pre C st c" by simp
  from dyn_step_invariant [OF Cons.prems(1) cfg pre]
  obtain st1 where st1: "Dynamic_step C st c = Inr st1"
    "dyn_inv C (pool st1) (outstanding st1) \<and> balanced st1" by blast
  from Cons.prems(1) have "dyn_inv C (pool st) (outstanding st)" by simp
  from dyn_step_addrs [OF this cfg pre st1(1)]
  obtain e1 where e1: "block_addrs (pool st1) = block_addrs (pool st) @ e1" by blast
  from Cons.prems(2,3) st1(1) have "follows (Dynamic_pre C) (Dynamic_step C) st1 cs"
    "run (Dynamic_step C) st1 cs = Inr st'" by simp_all
  from Cons.IH [OF st1(2) this]
  obtain e2 where "block_addrs (pool st') = block_addrs (pool st1) @ e2" by blast
  with e1 show ?case by simp
qed

lemma fold_snoc: "fold (\<lambda>x xs. xs @ [x]) l acc = acc @ l"
  by (induction l arbitrary: acc) auto

lemma follows_prefix:
  "follows pre step st (xs @ ys) \<Longrightarrow> follows pre step st xs"
  by (induction xs arbitrary: st) (auto split: sum.splits)

lemma delete_scan_none:
  assumes len: "length (block_info p) = unat (num_blocks p)"
    and out: "\<And>k. k < length (block_info p) \<Longrightarrow>
      \<not> (offset (block_info p ! k) \<le> ptr \<and>
         ptr < offset (block_info p ! k) + sizeof_T C * unat (pool_entries_per_block p))"
  shows "i \<le> length (block_info p) \<Longrightarrow> delete_scan C p ptr i = Inr p"
proof (induction "length (block_info p) - i" arbitrary: i)
  case 0
  with len show ?case by (subst delete_scan.simps) simp
next
  case (Suc d)
  then have lt: "i < length (block_info p)" by simp
  have d: "d = length (block_info p) - Suc i" using Suc.hyps(2) by simp
  have le: "Suc i \<le> length (block_info p)" using lt by simp
  from out [OF lt] lt len Suc.hyps(1) [OF d le] show ?case
    by (subst delete_scan.simps) (auto simp: Let_def)
qed

subsection \<open>Filling the first block\<close>

lemma find_free_single:
  "find_free [info] (Suc 0) 0 = Inr (if num_free info = 0 then Suc 0 else 0)"
  by (subst find_free.simps, simp, subst find_free.simps, simp)

lemma single_block_state:
  assumes inv: "dyn_inv C p lv" and cfg: "0 < sizeof_T C" "0 < alignof_T C"
    and one: "num_blocks p = 1"
  shows "free_block_index p = 0"
    and "\<exists>info. block_info p = [info]"
    and "unat (num_free (block_info p ! 0)) + length lv = unat (pool_entries_per_block p)"
proof -
  from inv one have len: "length (block_info p) = 1" and fbi: "free_block_index p < 1"
    by (simp_all add: dyn_inv_iff)
  from fbi show "free_block_index p = 0" by (simp add: word_less_nat_alt unat_eq_zero)
  from len obtain info where info: "block_info p = [info]"
    by (cases "block_info p") auto
  then show "\<exists>info. block_info p = [info]" by blast
  have "length lv = length (all_live C p)"
    using inv distinct_all_live [OF inv cfg] by (intro same_set_length) (simp_all add: dyn_inv_iff)
  also have "\<dots> = length (live_ptrs C (block info))" by (simp add: all_live_def info)
  finally have "length lv = length (live_ptrs C (block info))" .
  moreover from inv info have "info_inv C (pool_entries_per_block p) info"
    by (simp add: dyn_inv_iff)
  ultimately show "unat (num_free (block_info p ! 0)) + length lv = unat (pool_entries_per_block p)"
    by (simp add: info_inv_def info)
qed

text \<open>While the first block has room, an allocation stays in it.\<close>

lemma fill_step:
  assumes I: "dyn_inv C (pool st) (outstanding st) \<and> balanced st"
    and cfg: "0 < sizeof_T C" "0 < alignof_T C"
    and one: "num_blocks (pool st) = 1" and rel: "n_released st = 0"
    and room: "n_allocated st < unat (pool_entries_per_block (pool st))"
  shows "\<exists>st'. Dynamic_step C st (New_object v h) = Inr st' \<and>
           (dyn_inv C (pool st') (outstanding st') \<and> balanced st') \<and>
           num_blocks (pool st') = 1 \<and> n_released st' = 0 \<and>
           n_allocated st' = Suc (n_allocated st) \<and>
           pool_entries_per_block (pool st') = pool_entries_per_block (pool st)"
proof -
  let ?p = "pool st"
  from I have inv: "dyn_inv C ?p (outstanding st)" and bal: "balanced st" by simp_all
  note s = single_block_state [OF inv cfg one]
  from s(2) obtain info where info: "block_info ?p = [info]" by blast
  from bal rel have "length (outstanding st) = n_allocated st" by (simp add: balanced_def)
  with s(3) room info have nz: "num_free info \<noteq> 0" by (auto simp: unat_eq_zero)
  then have ff: "find_free (block_info ?p) (unat (num_blocks ?p)) (unat (free_block_index ?p)) = Inr 0"
    by (simp add: info one s(1) find_free_single)
  have nz': "num_free (block_info ?p ! 0) \<noteq> 0" using nz info by simp
  note found = dyn_new_found [OF inv cfg ff _ nz']
  from found(1) [of v h] found(2) [of v] one bal rel show ?thesis
    by (simp add: Dynamic_step_def allocated_def entry_ptr_nonzero balanced_def)
qed

text \<open>Once the only block is full, an allocation adds the second block.\<close>

lemma grow_step:
  assumes I: "dyn_inv C (pool st) (outstanding st) \<and> balanced st"
    and cfg: "0 < sizeof_T C" "0 < alignof_T C"
    and one: "num_blocks (pool st) = 1" and rel: "n_released st = 0"
    and full: "n_allocated st = unat (pool_entries_per_block (pool st))"
    and host: "host_ok C (pool st) h"
  shows "\<exists>st'. Dynamic_step C st (New_object v h) = Inr st' \<and>
           (dyn_inv C (pool st') (outstanding st') \<and> balanced st') \<and>
           num_blocks (pool st') = 2 \<and> n_released st' = 0 \<and>
           n_allocated st' = Suc (n_allocated st)"
proof -
  let ?p = "pool st"
  from I have inv: "dyn_inv C ?p (outstanding st)" and bal: "balanced st" by simp_all
  note s = single_block_state [OF inv cfg one]
  from s(2) obtain info where info: "block_info ?p = [info]" by blast
  from bal rel have "length (outstanding st) = n_allocated st" by (simp add: balanced_def)
  with s(3) full info have z: "num_free info = 0" by (simp add: unat_eq_zero)
  then have ff: "find_free (block_info ?p) (unat (num_blocks ?p)) (unat (free_block_index ?p)) =
      Inr (unat (num_blocks ?p))"
    by (simp add: info one s(1) find_free_single)
  have room: "num_blocks ?p + 1 \<noteq> 0" by (simp add: one)
  note grow = dyn_new_grow [OF inv cfg ff host room]
  from grow(1) [of v] grow(2) [of v] one bal rel show ?thesis
    by (simp add: Dynamic_step_def allocated_def entry_ptr_nonzero balanced_def)
qed

lemma fill_run:
  assumes cfg: "0 < sizeof_T C" "0 < alignof_T C"
  shows "dyn_inv C (pool st) (outstanding st) \<and> balanced st \<Longrightarrow>
    num_blocks (pool st) = 1 \<Longrightarrow> n_released st = 0 \<Longrightarrow>
    n_allocated st + length vhs \<le> unat (pool_entries_per_block (pool st)) \<Longrightarrow>
    \<exists>st'. run (Dynamic_step C) st (map (\<lambda>(v, h). New_object v h) vhs) = Inr st' \<and>
          (dyn_inv C (pool st') (outstanding st') \<and> balanced st') \<and>
          num_blocks (pool st') = 1 \<and> n_released st' = 0 \<and>
          n_allocated st' = n_allocated st + length vhs \<and>
          pool_entries_per_block (pool st') = pool_entries_per_block (pool st)"
proof (induction vhs arbitrary: st)
  case Nil
  then show ?case by simp
next
  case (Cons vh vhs)
  obtain v h where vh: "vh = (v, h)" by (cases vh)
  from Cons.prems(4) have "n_allocated st < unat (pool_entries_per_block (pool st))" by simp
  from fill_step [OF Cons.prems(1) cfg Cons.prems(2,3) this, of v h]
  obtain st1 where st1: "Dynamic_step C st (New_object v h) = Inr st1"
    "dyn_inv C (pool st1) (outstanding st1) \<and> balanced st1"
    "num_blocks (pool st1) = 1" "n_released st1 = 0"
    "n_allocated st1 = Suc (n_allocated st)"
    "pool_entries_per_block (pool st1) = pool_entries_per_block (pool st)"
    by blast
  have "n_allocated st1 + length vhs \<le> unat (pool_entries_per_block (pool st1))"
    using Cons.prems(4) st1(5,6) by simp
  from Cons.IH [OF st1(2,3,4) this] st1 vh show ?case by auto
qed

section \<open>Properties of a block\<close>

text \<open>
  C1.  The invariant \<open>block_inv\<close> (an index entry refers to itself exactly when its
  slot holds a live object; the entries of the other slots form the chain of the free
  list, which starts at \<open>free_head_index\<close> and ends at the sentinel
  \<open>entries_per_block\<close>) holds for a block the constructor has built, also when it is
  built through \<^verbatim>\<open>create\<close>, and every call of \<^verbatim>\<open>new_object\<close> and every call of
  \<^verbatim>\<open>delete_object\<close> on the address of a live object of the block (or on
  \<^verbatim>\<open>nullptr\<close>) returns and leaves a block that satisfies it.
\<close>

theorem block_invariant:
  "block_inv (MemoryPoolBlock_ctor this n) \<and>
   (create C mem n = Inr (Some b0) \<longrightarrow> block_inv b0) \<and>
   (block_inv b \<longrightarrow> (\<exists>p b'. new_object C b v = Inr (p, b') \<and> block_inv b')) \<and>
   (block_inv b \<and> 0 < sizeof_T C \<and> owned C b ptr \<longrightarrow>
      (\<exists>b'. delete_object C b ptr = Inr b' \<and> block_inv b')) \<and>
   (block_inv b \<longrightarrow> delete_object C b 0 = Inr b)"
proof (intro conjI impI)
  show "block_inv (MemoryPoolBlock_ctor this n)" by (rule block_inv_ctor)
  show "block_inv b0" if "create C mem n = Inr (Some b0)"
    using that by (rule create_block_inv)
  show "\<exists>p b'. new_object C b v = Inr (p, b') \<and> block_inv b'" if inv: "block_inv b"
  proof (cases "free_head_index b = entries_per_block b")
    case True
    with inv show ?thesis by (simp add: new_object_full)
  next
    case False
    with inv show ?thesis
      using new_object_free [of b C v] block_inv_new_object_post [of b v] by blast
  qed
  show "\<exists>b'. delete_object C b ptr = Inr b' \<and> block_inv b'"
    if "block_inv b \<and> 0 < sizeof_T C \<and> owned C b ptr"
  proof -
    from that obtain i where "i < unat (entries_per_block b)" "live b i"
      "ptr = entry_ptr C b (word_of_nat i)"
      by (auto simp: owned_iff)
    with that show ?thesis
      using delete_object_live [of b C i] block_inv_delete_object_post [of b i] by blast
  qed
  show "delete_object C b 0 = Inr b" by (simp add: delete_object_def)
qed

theorem block_invariant_witness:
  "block_inv (MemoryPoolBlock_ctor 64 2 :: nat MemoryPoolBlock) \<and>
   create \<lparr> sizeof_T = 4, alignof_T = 4, NDEBUG = False \<rparr> 64 2 =
     Inr (Some (MemoryPoolBlock_ctor 64 2 :: nat MemoryPoolBlock)) \<and>
   block_inv \<lparr> free_head_index = 1, entries_per_block = 2, this_ptr = 64,
       indices = [0, 2], memory = [Some (7::nat), None] \<rparr> \<and>
   0 < sizeof_T \<lparr> sizeof_T = 4, alignof_T = 4, NDEBUG = False \<rparr> \<and>
   owned \<lparr> sizeof_T = 4, alignof_T = 4, NDEBUG = False \<rparr>
     \<lparr> free_head_index = 1, entries_per_block = 2, this_ptr = 64,
       indices = [0, 2], memory = [Some (7::nat), None] \<rparr> 80 \<and>
   (\<exists>p b'. new_object \<lparr> sizeof_T = 4, alignof_T = 4, NDEBUG = False \<rparr>
       \<lparr> free_head_index = 1, entries_per_block = 2, this_ptr = 64,
       indices = [0, 2], memory = [Some (7::nat), None] \<rparr> 9 = Inr (p, b') \<and> block_inv b') \<and>
   (\<exists>b'. delete_object \<lparr> sizeof_T = 4, alignof_T = 4, NDEBUG = False \<rparr>
       \<lparr> free_head_index = 1, entries_per_block = 2, this_ptr = 64,
       indices = [0, 2], memory = [Some (7::nat), None] \<rparr> 80 = Inr b' \<and> block_inv b') \<and>
   delete_object \<lparr> sizeof_T = 4, alignof_T = 4, NDEBUG = False \<rparr>
     \<lparr> free_head_index = 1, entries_per_block = 2, this_ptr = 64,
       indices = [0, 2], memory = [Some (7::nat), None] \<rparr> 0 =
   Inr \<lparr> free_head_index = 1, entries_per_block = 2, this_ptr = 64,
       indices = [0, 2], memory = [Some (7::nat), None] \<rparr>"
proof -
  let ?C = "\<lparr> sizeof_T = 4, alignof_T = 4, NDEBUG = False \<rparr>"
  let ?b = "\<lparr> free_head_index = 1, entries_per_block = 2, this_ptr = 64,
       indices = [0, 2], memory = [Some (7::nat), None] \<rparr>"
  let ?fresh = "MemoryPoolBlock_ctor 64 2 :: nat MemoryPoolBlock"
  have h0: "create ?C 64 2 = Inr (Some ?fresh)" by code_simp
  have h1: "block_inv ?b" by code_simp
  have h2: "0 < sizeof_T ?C" by simp
  have h3: "owned ?C ?b 80" by code_simp
  from block_invariant [where C = ?C and b = ?b and v = 9 and ptr = 80
      and this = 64 and n = 2 and mem = 64 and ?b0.0 = ?fresh] h0 h1 h2 h3
  show ?thesis by blast
qed

text \<open>
  C2.  On a block that satisfies the invariant: when \<open>free_head_index\<close> equals the
  capacity, \<^verbatim>\<open>new_object\<close> returns \<^verbatim>\<open>nullptr\<close> and the block is unchanged; otherwise,
  with \<open>i\<close> the old \<open>free_head_index\<close>, it returns the address of slot \<open>i\<close>, stores
  \<open>i\<close> in \<open>indices[i]\<close>, makes the old \<open>indices[i]\<close> the new head, constructs the
  object in slot \<open>i\<close>, and changes no other index entry and no other slot.
\<close>

theorem new_object_effect:
  assumes "block_inv b"
  shows "(free_head_index b = entries_per_block b \<longrightarrow> new_object C b v = Inr (0, b)) \<and>
         (free_head_index b \<noteq> entries_per_block b \<longrightarrow>
            (\<exists>b'. new_object C b v = Inr (entry_ptr C b (free_head_index b), b') \<and>
               unat (free_head_index b) < unat (entries_per_block b) \<and>
               entry_ptr C b (free_head_index b) \<noteq> 0 \<and>
               indices b' = (indices b)[unat (free_head_index b) := free_head_index b] \<and>
               free_head_index b' = indices b ! unat (free_head_index b) \<and>
               memory b' = (memory b)[unat (free_head_index b) := Some v] \<and>
               entries_per_block b' = entries_per_block b \<and>
               this_ptr b' = this_ptr b \<and>
               (\<forall>j. j \<noteq> unat (free_head_index b) \<longrightarrow>
                  indices b' ! j = indices b ! j \<and> memory b' ! j = memory b ! j)))"
proof (intro conjI impI)
  assume "free_head_index b = entries_per_block b"
  then show "new_object C b v = Inr (0, b)" by (rule new_object_full)
next
  assume ne: "free_head_index b \<noteq> entries_per_block b"
  have "new_object C b v = Inr (entry_ptr C b (free_head_index b), new_object_post b v)"
    using assms ne by (rule new_object_free)
  moreover have "unat (free_head_index b) < unat (entries_per_block b)"
    using assms ne by (rule block_inv_head)
  ultimately show "\<exists>b'. new_object C b v = Inr (entry_ptr C b (free_head_index b), b') \<and>
               unat (free_head_index b) < unat (entries_per_block b) \<and>
               entry_ptr C b (free_head_index b) \<noteq> 0 \<and>
               indices b' = (indices b)[unat (free_head_index b) := free_head_index b] \<and>
               free_head_index b' = indices b ! unat (free_head_index b) \<and>
               memory b' = (memory b)[unat (free_head_index b) := Some v] \<and>
               entries_per_block b' = entries_per_block b \<and>
               this_ptr b' = this_ptr b \<and>
               (\<forall>j. j \<noteq> unat (free_head_index b) \<longrightarrow>
                  indices b' ! j = indices b ! j \<and> memory b' ! j = memory b ! j)"
    by (intro exI [of _ "new_object_post b v"])
       (simp add: new_object_post_def entry_ptr_nonzero)
qed

theorem new_object_effect_witness:
  "block_inv \<lparr> free_head_index = 1, entries_per_block = 2, this_ptr = 64,
       indices = [0, 2], memory = [Some (7::nat), None] \<rparr> \<and>
   free_head_index \<lparr> free_head_index = 1, entries_per_block = 2, this_ptr = 64,
       indices = [0, 2], memory = [Some (7::nat), None] \<rparr> \<noteq>
   entries_per_block \<lparr> free_head_index = 1, entries_per_block = 2, this_ptr = 64,
       indices = [0, 2], memory = [Some (7::nat), None] \<rparr> \<and>
   new_object \<lparr> sizeof_T = 4, alignof_T = 4, NDEBUG = False \<rparr>
     \<lparr> free_head_index = 1, entries_per_block = 2, this_ptr = 64,
       indices = [0, 2], memory = [Some (7::nat), None] \<rparr> 9 =
   Inr (84, \<lparr> free_head_index = 2, entries_per_block = 2, this_ptr = 64,
       indices = [0, 1], memory = [Some 7, Some 9] \<rparr>) \<and>
   block_inv \<lparr> free_head_index = 2, entries_per_block = 2, this_ptr = 64,
       indices = [0, 1], memory = [Some (7::nat), Some 9] \<rparr> \<and>
   free_head_index \<lparr> free_head_index = 2, entries_per_block = 2, this_ptr = 64,
       indices = [0, 1], memory = [Some (7::nat), Some 9] \<rparr> =
   entries_per_block \<lparr> free_head_index = 2, entries_per_block = 2, this_ptr = 64,
       indices = [0, 1], memory = [Some (7::nat), Some 9] \<rparr> \<and>
   new_object \<lparr> sizeof_T = 4, alignof_T = 4, NDEBUG = False \<rparr>
     \<lparr> free_head_index = 2, entries_per_block = 2, this_ptr = 64,
       indices = [0, 1], memory = [Some (7::nat), Some 9] \<rparr> 5 =
   Inr (0, \<lparr> free_head_index = 2, entries_per_block = 2, this_ptr = 64,
       indices = [0, 1], memory = [Some (7::nat), Some 9] \<rparr>)"
proof -
  let ?C = "\<lparr> sizeof_T = 4, alignof_T = 4, NDEBUG = False \<rparr>"
  let ?b = "\<lparr> free_head_index = 1, entries_per_block = 2, this_ptr = 64,
       indices = [0, 2], memory = [Some (7::nat), None] \<rparr>"
  let ?f = "\<lparr> free_head_index = 2, entries_per_block = 2, this_ptr = 64,
       indices = [0, 1], memory = [Some (7::nat), Some 9] \<rparr>"
  have h1: "block_inv ?b" by code_simp
  have h2: "block_inv ?f" by code_simp
  have e: "entry_ptr ?C ?b 1 = 84"
    by (simp add: entry_ptr_def memory_begin_def indices_begin_def sizeof_MemoryPoolBlock_def
        sizeof_index_t_def)
  from new_object_effect [OF h1, of ?C 9] e
  have "new_object ?C ?b 9 =
      Inr (84, \<lparr> free_head_index = 2, entries_per_block = 2, this_ptr = 64,
        indices = [0, 1], memory = [Some 7, Some 9] \<rparr>)"
    by auto
  moreover from new_object_effect [OF h2, of ?C 5]
  have "new_object ?C ?f 5 = Inr (0, ?f)" by simp
  ultimately show ?thesis using h1 h2 by simp
qed

text \<open>
  C5.  LIFO reuse: on a block that satisfies the invariant, deleting a live object and
  allocating again at once returns the address of the deleted object, whatever other
  objects the block holds.
\<close>

theorem lifo_reuse:
  assumes "block_inv b" and "0 < sizeof_T C" and "owned C b ptr"
  shows "\<exists>b1 b2. delete_object C b ptr = Inr b1 \<and> new_object C b1 v = Inr (ptr, b2)"
proof -
  from assms(3) obtain i where i: "i < unat (entries_per_block b)" "live b i"
    and ptr: "ptr = entry_ptr C b (word_of_nat i)"
    by (auto simp: owned_iff)
  let ?b1 = "delete_object_post b i"
  have del: "delete_object C b ptr = Inr ?b1"
    unfolding ptr using assms(1,2) i by (rule delete_object_live)
  have inv1: "block_inv ?b1"
    using assms(1) i by (rule block_inv_delete_object_post)
  have "unat (word_of_nat i :: index_t) = i"
    using i(1) by (rule unat_word_of_nat_less)
  with i(1) have ne: "free_head_index ?b1 \<noteq> entries_per_block ?b1"
    by (auto simp: delete_object_post_def)
  have "new_object C ?b1 v = Inr (entry_ptr C ?b1 (free_head_index ?b1), new_object_post ?b1 v)"
    using inv1 ne by (rule new_object_free)
  moreover have "entry_ptr C ?b1 (free_head_index ?b1) = ptr"
    by (simp add: ptr) (simp add: delete_object_post_def)
  ultimately show ?thesis using del by auto
qed

theorem lifo_reuse_witness:
  "block_inv \<lparr> free_head_index = 2, entries_per_block = 2, this_ptr = 64,
       indices = [0, 1], memory = [Some (7::nat), Some 9] \<rparr> \<and>
   0 < sizeof_T \<lparr> sizeof_T = 4, alignof_T = 4, NDEBUG = False \<rparr> \<and>
   owned \<lparr> sizeof_T = 4, alignof_T = 4, NDEBUG = False \<rparr>
     \<lparr> free_head_index = 2, entries_per_block = 2, this_ptr = 64,
       indices = [0, 1], memory = [Some (7::nat), Some 9] \<rparr> 80 \<and>
   (\<exists>b1 b2. delete_object \<lparr> sizeof_T = 4, alignof_T = 4, NDEBUG = False \<rparr>
       \<lparr> free_head_index = 2, entries_per_block = 2, this_ptr = 64,
         indices = [0, 1], memory = [Some (7::nat), Some 9] \<rparr> 80 = Inr b1 \<and>
      new_object \<lparr> sizeof_T = 4, alignof_T = 4, NDEBUG = False \<rparr> b1 5 = Inr (80, b2))"
proof -
  let ?C = "\<lparr> sizeof_T = 4, alignof_T = 4, NDEBUG = False \<rparr>"
  let ?b = "\<lparr> free_head_index = 2, entries_per_block = 2, this_ptr = 64,
       indices = [0, 1], memory = [Some (7::nat), Some 9] \<rparr>"
  have h1: "block_inv ?b" by code_simp
  have h2: "0 < sizeof_T ?C" by simp
  have h3: "owned ?C ?b 80" by code_simp
  from lifo_reuse [OF h1 h2 h3, of 5] h1 h2 h3 show ?thesis by blast
qed

text \<open>
  C10.  A \<^verbatim>\<open>FixedMemoryPool\<close> constructed with \<open>max_entries = 0\<close> (the host's
  allocation of the block having succeeded) holds a block whose free head is the
  sentinel from the start: every \<^verbatim>\<open>new_object\<close> returns \<^verbatim>\<open>nullptr\<close> and leaves the pool
  as it was.
\<close>

theorem zero_capacity_pool:
  assumes "mem \<noteq> 0"
  shows "\<exists>p. FixedMemoryPool_ctor C mem 0 = Inr p \<and>
             fixed_block p = Some (MemoryPoolBlock_ctor mem 0) \<and>
             free_head_index (MemoryPoolBlock_ctor mem 0 :: 'a MemoryPoolBlock) =
               entries_per_block (MemoryPoolBlock_ctor mem 0 :: 'a MemoryPoolBlock) \<and>
             (\<forall>v :: 'a. Fixed_new_object C p v = Inr (0, p)) \<and>
             (\<forall>v :: 'a. new_object C (MemoryPoolBlock_ctor mem 0) v =
                 Inr (0, MemoryPoolBlock_ctor mem 0))"
proof -
  let ?b = "MemoryPoolBlock_ctor mem 0 :: 'a MemoryPoolBlock"
  have c: "create C mem 0 = Inr (Some ?b)"
    using assms
    by (simp add: create_def Let_def align_to_zero indices_begin_def memory_begin_def
        MemoryPoolBlock_ctor_def)
  have h: "free_head_index ?b = entries_per_block ?b"
    by (simp add: MemoryPoolBlock_ctor_def)
  have n: "new_object C ?b v = Inr (0, ?b)" for v
    using h by (rule new_object_full)
  show ?thesis
    using c h n by (simp add: FixedMemoryPool_ctor_def Fixed_new_object_def)
qed

theorem zero_capacity_pool_witness:
  "(64::nat) \<noteq> 0 \<and>
   (\<exists>p. FixedMemoryPool_ctor \<lparr> sizeof_T = 4, alignof_T = 4, NDEBUG = False \<rparr> 64 0 = Inr p \<and>
        (\<forall>v :: nat. Fixed_new_object \<lparr> sizeof_T = 4, alignof_T = 4, NDEBUG = False \<rparr> p v = Inr (0, p)))"
proof -
  have h: "(64::nat) \<noteq> 0" by simp
  from zero_capacity_pool [where ?'a = nat, OF h, of "\<lparr> sizeof_T = 4, alignof_T = 4, NDEBUG = False \<rparr>"] h
  show ?thesis by blast
qed

text \<open>
  C7.  The claim that every returned pointer is a multiple of \<^verbatim>\<open>alignof(T)\<close> fails
  for an over-aligned \<^verbatim>\<open>T\<close>: with \<^verbatim>\<open>sizeof(T) = alignof(T) = 16\<close>, four entries per
  block and the block allocated at the 64-aligned address 64, both assertions of
  \<^verbatim>\<open>create\<close> hold, the entry storage begins at \<open>64 + 8 + 16 = 88\<close>, and the first
  \<^verbatim>\<open>new_object\<close> returns 88, which is 8 modulo 16.  The header is 8 bytes, and
  \<^verbatim>\<open>memory_begin()\<close> adds the unrounded size of the index array.
\<close>

theorem misaligned_entries:
  "(64::nat) mod MIN_BLOCK_ALIGN = 0 \<and>
   (\<forall>ndebug. \<exists>b b'.
      create \<lparr> sizeof_T = 16, alignof_T = 16, NDEBUG = ndebug \<rparr> 64 4 = Inr (Some b) \<and>
      new_object \<lparr> sizeof_T = 16, alignof_T = 16, NDEBUG = ndebug \<rparr> b (v::'a) = Inr (88, b') \<and>
      memory_begin b = 88 \<and>
      88 mod alignof_T \<lparr> sizeof_T = 16, alignof_T = 16, NDEBUG = ndebug \<rparr> = 8)"
proof -
  let ?b = "MemoryPoolBlock_ctor 64 4 :: 'a MemoryPoolBlock"
  have mb: "memory_begin ?b = 88"
    by (simp add: memory_begin_def indices_begin_def MemoryPoolBlock_ctor_def
        sizeof_MemoryPoolBlock_def sizeof_index_t_def)
  have c: "create \<lparr> sizeof_T = 16, alignof_T = 16, NDEBUG = ndebug \<rparr> 64 4 = Inr (Some ?b)" for ndebug
    using mb
    by (simp add: create_def Let_def align_to_def indices_begin_def
        sizeof_MemoryPoolBlock_def sizeof_index_t_def)
  have ne: "free_head_index ?b \<noteq> entries_per_block ?b"
    by (simp add: MemoryPoolBlock_ctor_def)
  have n: "new_object \<lparr> sizeof_T = 16, alignof_T = 16, NDEBUG = ndebug \<rparr> ?b v =
      Inr (88, new_object_post ?b v)" for ndebug
    using new_object_free [OF block_inv_ctor ne, of "\<lparr> sizeof_T = 16, alignof_T = 16, NDEBUG = ndebug \<rparr>" v] mb
    by (simp add: entry_ptr_def)
  show ?thesis
    using c n mb by (auto simp: MIN_BLOCK_ALIGN_def)
qed

section \<open>Properties of the pools\<close>

text \<open>
  C3.  A \<^verbatim>\<open>FixedMemoryPool\<close> or a \<^verbatim>\<open>DynamicMemoryPool\<close> is constructed (its first block
  allocated) and then receives any history of \<^verbatim>\<open>new_object\<close> and \<^verbatim>\<open>delete_object\<close> calls
  that respects the ownership contract (for the dynamic pool also: the host allocator
  does not fail and hands out memory apart from the blocks in use, the capacity of a
  block is not 0, and the block counter does not wrap).  Then every call returns, and
  \<^verbatim>\<open>get_stats().allocation_count\<close> is the number of successful allocations minus the
  number of releases.
\<close>

theorem allocation_count_of_history:
  fixes fp :: "'a FixedMemoryPool" and dp :: "'a DynamicMemoryPool"
  shows
  "(0 < sizeof_T C \<and>
    FixedMemoryPool_ctor C mem max_entries = Inr fp \<and> fixed_block fp \<noteq> None \<and>
    follows owns (Fixed_step C) (start fp) fcs \<longrightarrow>
      (\<exists>st. run (Fixed_step C) (start fp) fcs = Inr st \<and>
            n_released st \<le> n_allocated st \<and>
            Fixed_get_stats C (pool st) =
              Inr \<lparr>block_count = 1, allocation_count = n_allocated st - n_released st\<rparr>)) \<and>
   (0 < sizeof_T C \<and> 0 < alignof_T C \<and>
    DynamicMemoryPool_ctor C entries h = Inr dp \<and>
    malloc_ptr h \<noteq> 0 \<and> realloc_ok h \<and> entries \<noteq> 0 \<and>
    follows (Dynamic_pre C) (Dynamic_step C) (start dp) dcs \<longrightarrow>
      (\<exists>st stats. run (Dynamic_step C) (start dp) dcs = Inr st \<and>
            n_released st \<le> n_allocated st \<and>
            Dynamic_get_stats C (pool st) = Inr stats \<and>
            allocation_count stats = n_allocated st - n_released st))"
proof (intro conjI impI)
  assume a: "0 < sizeof_T C \<and>
    FixedMemoryPool_ctor C mem max_entries = Inr fp \<and> fixed_block fp \<noteq> None \<and>
    follows owns (Fixed_step C) (start fp) fcs"
  then obtain st where st: "run (Fixed_step C) (start fp) fcs = Inr st"
    "fixed_inv C (pool st) (outstanding st) \<and> balanced st"
    using fixed_run [of C mem max_entries fp fcs] by blast
  then have "length (outstanding st) = n_allocated st - n_released st"
    "n_released st \<le> n_allocated st"
    by (auto simp: balanced_def)
  with st a fixed_get_stats [of C "pool st" "outstanding st"]
  show "\<exists>st. run (Fixed_step C) (start fp) fcs = Inr st \<and>
            n_released st \<le> n_allocated st \<and>
            Fixed_get_stats C (pool st) =
              Inr \<lparr>block_count = 1, allocation_count = n_allocated st - n_released st\<rparr>"
    by auto
next
  assume a: "0 < sizeof_T C \<and> 0 < alignof_T C \<and>
    DynamicMemoryPool_ctor C entries h = Inr dp \<and>
    malloc_ptr h \<noteq> 0 \<and> realloc_ok h \<and> entries \<noteq> 0 \<and>
    follows (Dynamic_pre C) (Dynamic_step C) (start dp) dcs"
  then obtain st where st: "run (Dynamic_step C) (start dp) dcs = Inr st"
    "dyn_inv C (pool st) (outstanding st) \<and> balanced st"
    using dyn_run [of C entries h dp dcs] by blast
  then have "length (outstanding st) = n_allocated st - n_released st"
    "n_released st \<le> n_allocated st"
    by (auto simp: balanced_def)
  with st a dyn_get_stats [of C "pool st" "outstanding st"]
  show "\<exists>st stats. run (Dynamic_step C) (start dp) dcs = Inr st \<and>
            n_released st \<le> n_allocated st \<and>
            Dynamic_get_stats C (pool st) = Inr stats \<and>
            allocation_count stats = n_allocated st - n_released st"
    by auto
qed

theorem allocation_count_of_history_witness:
  "0 < sizeof_T \<lparr>sizeof_T = 4, alignof_T = 4, NDEBUG = False\<rparr> \<and>
   FixedMemoryPool_ctor \<lparr>sizeof_T = 4, alignof_T = 4, NDEBUG = False\<rparr> 64 2 =
     Inr \<lparr>fixed_block = Some (MemoryPoolBlock_ctor 64 2 :: nat MemoryPoolBlock)\<rparr> \<and>
   fixed_block \<lparr>fixed_block = Some (MemoryPoolBlock_ctor 64 2 :: nat MemoryPoolBlock)\<rparr> \<noteq> None \<and>
   follows owns (Fixed_step \<lparr>sizeof_T = 4, alignof_T = 4, NDEBUG = False\<rparr>)
     (start \<lparr>fixed_block = Some (MemoryPoolBlock_ctor 64 2 :: nat MemoryPoolBlock)\<rparr>)
     [New_object 7 (), New_object 9 (), New_object 5 (), Delete_object 80, New_object 3 ()] \<and>
   (\<exists>st. run (Fixed_step \<lparr>sizeof_T = 4, alignof_T = 4, NDEBUG = False\<rparr>)
           (start \<lparr>fixed_block = Some (MemoryPoolBlock_ctor 64 2 :: nat MemoryPoolBlock)\<rparr>)
           [New_object 7 (), New_object 9 (), New_object 5 (), Delete_object 80, New_object 3 ()] = Inr st \<and>
         n_released st \<le> n_allocated st \<and>
         Fixed_get_stats \<lparr>sizeof_T = 4, alignof_T = 4, NDEBUG = False\<rparr> (pool st) =
           Inr \<lparr>block_count = 1, allocation_count = n_allocated st - n_released st\<rparr>) \<and>
   0 < alignof_T \<lparr>sizeof_T = 4, alignof_T = 4, NDEBUG = False\<rparr> \<and>
   DynamicMemoryPool_ctor \<lparr>sizeof_T = 4, alignof_T = 4, NDEBUG = False\<rparr> 1 \<lparr>malloc_ptr = 64, realloc_ok = True\<rparr> =
     Inr (\<lparr>block_info = [\<lparr>num_free = 1, offset = 76, block = MemoryPoolBlock_ctor 64 1\<rparr>],
        num_blocks = 1, free_block_index = 0, pool_entries_per_block = 1\<rparr>
      :: nat DynamicMemoryPool) \<and>
   malloc_ptr \<lparr>malloc_ptr = 64, realloc_ok = True\<rparr> \<noteq> 0 \<and>
   realloc_ok \<lparr>malloc_ptr = 64, realloc_ok = True\<rparr> \<and>
   (1 :: index_t) \<noteq> 0 \<and>
   follows (Dynamic_pre \<lparr>sizeof_T = 4, alignof_T = 4, NDEBUG = False\<rparr>)
     (Dynamic_step \<lparr>sizeof_T = 4, alignof_T = 4, NDEBUG = False\<rparr>)
     (start (\<lparr>block_info = [\<lparr>num_free = 1, offset = 76, block = MemoryPoolBlock_ctor 64 1\<rparr>],
        num_blocks = 1, free_block_index = 0, pool_entries_per_block = 1\<rparr>
      :: nat DynamicMemoryPool))
     [New_object 7 \<lparr>malloc_ptr = 128, realloc_ok = True\<rparr>,
      New_object 9 \<lparr>malloc_ptr = 128, realloc_ok = True\<rparr>,
      Delete_object 76,
      New_object 5 \<lparr>malloc_ptr = 192, realloc_ok = True\<rparr>] \<and>
   (\<exists>st stats. run (Dynamic_step \<lparr>sizeof_T = 4, alignof_T = 4, NDEBUG = False\<rparr>)
           (start (\<lparr>block_info = [\<lparr>num_free = 1, offset = 76, block = MemoryPoolBlock_ctor 64 1\<rparr>],
        num_blocks = 1, free_block_index = 0, pool_entries_per_block = 1\<rparr>
      :: nat DynamicMemoryPool))
           [New_object 7 \<lparr>malloc_ptr = 128, realloc_ok = True\<rparr>,
      New_object 9 \<lparr>malloc_ptr = 128, realloc_ok = True\<rparr>,
      Delete_object 76,
      New_object 5 \<lparr>malloc_ptr = 192, realloc_ok = True\<rparr>] = Inr st \<and>
         n_released st \<le> n_allocated st \<and>
         Dynamic_get_stats \<lparr>sizeof_T = 4, alignof_T = 4, NDEBUG = False\<rparr> (pool st) = Inr stats \<and>
         allocation_count stats = n_allocated st - n_released st)"
proof -
  let ?C = "\<lparr>sizeof_T = 4, alignof_T = 4, NDEBUG = False\<rparr>"
  let ?fp = "\<lparr>fixed_block = Some (MemoryPoolBlock_ctor 64 2 :: nat MemoryPoolBlock)\<rparr>"
  let ?fcs = "[New_object 7 (), New_object 9 (), New_object 5 (), Delete_object 80, New_object 3 ()] :: (nat, unit) call list"
  let ?h = "\<lparr>malloc_ptr = 64, realloc_ok = True\<rparr>"
  let ?dp = "(\<lparr>block_info = [\<lparr>num_free = 1, offset = 76, block = MemoryPoolBlock_ctor 64 1\<rparr>],
        num_blocks = 1, free_block_index = 0, pool_entries_per_block = 1\<rparr>
      :: nat DynamicMemoryPool)"
  let ?dcs = "[New_object 7 \<lparr>malloc_ptr = 128, realloc_ok = True\<rparr>,
      New_object 9 \<lparr>malloc_ptr = 128, realloc_ok = True\<rparr>,
      Delete_object 76,
      New_object 5 \<lparr>malloc_ptr = 192, realloc_ok = True\<rparr>] :: (nat, host) call list"
  have f1: "FixedMemoryPool_ctor ?C 64 2 = Inr ?fp" by code_simp
  have f2: "follows owns (Fixed_step ?C) (start ?fp) ?fcs" by code_simp
  have d1: "DynamicMemoryPool_ctor ?C 1 ?h = Inr ?dp" by code_simp
  have d2: "follows (Dynamic_pre ?C) (Dynamic_step ?C) (start ?dp) ?dcs" by code_simp
  note inst = allocation_count_of_history [where C = ?C and mem = 64 and max_entries = 2
      and fp = ?fp and fcs = ?fcs and entries = 1 and h = ?h and dp = ?dp and dcs = ?dcs]
  have "\<exists>st. run (Fixed_step ?C) (start ?fp) ?fcs = Inr st \<and>
         n_released st \<le> n_allocated st \<and>
         Fixed_get_stats ?C (pool st) =
           Inr \<lparr>block_count = 1, allocation_count = n_allocated st - n_released st\<rparr>"
    using inst [THEN conjunct1] f1 f2 by simp
  moreover have "\<exists>st stats. run (Dynamic_step ?C) (start ?dp) ?dcs = Inr st \<and>
         n_released st \<le> n_allocated st \<and>
         Dynamic_get_stats ?C (pool st) = Inr stats \<and>
         allocation_count stats = n_allocated st - n_released st"
    using inst [THEN conjunct2] d1 d2 by simp
  ultimately show ?thesis using f1 f2 d1 d2 by simp
qed

text \<open>
  C4.  In every state a pool reaches by such a history, \<^verbatim>\<open>for_each\<close> applies the
  visitor to the addresses \<open>live_ptrs\<close> (fixed pool) or \<open>all_live\<close> (dynamic pool) from
  left to right: the live slots in the order of their indices within a block, block
  after block in the order of \<open>block_info\<close>.  These addresses are pairwise distinct and
  are exactly the outstanding pointers, their number is
  \<^verbatim>\<open>get_stats().allocation_count\<close>, and the order of \<open>block_info\<close> is the order of
  creation: the blocks present after a prefix of the history stay in front.
\<close>

theorem for_each_visits_live_objects:
  fixes fp :: "'a FixedMemoryPool" and dp :: "'a DynamicMemoryPool"
    and func :: "addr \<Rightarrow> 's \<Rightarrow> 's"
  shows
  "(0 < sizeof_T C \<and>
    FixedMemoryPool_ctor C mem max_entries = Inr fp \<and> fixed_block fp \<noteq> None \<and>
    follows owns (Fixed_step C) (start fp) fcs \<longrightarrow>
      (\<exists>st b. run (Fixed_step C) (start fp) fcs = Inr st \<and>
            fixed_block (pool st) = Some b \<and>
            Fixed_for_each C (pool st) func s = Inr (fold func (live_ptrs C b) s) \<and>
            Fixed_for_each C (pool st) (\<lambda>ptr visited. visited @ [ptr]) [] = Inr (live_ptrs C b) \<and>
            distinct (live_ptrs C b) \<and>
            set (live_ptrs C b) = set (outstanding st) \<and>
            Fixed_get_stats C (pool st) =
              Inr \<lparr>block_count = 1, allocation_count = length (live_ptrs C b)\<rparr>)) \<and>
   (0 < sizeof_T C \<and> 0 < alignof_T C \<and>
    DynamicMemoryPool_ctor C entries h = Inr dp \<and>
    malloc_ptr h \<noteq> 0 \<and> realloc_ok h \<and> entries \<noteq> 0 \<and>
    follows (Dynamic_pre C) (Dynamic_step C) (start dp) dcs \<longrightarrow>
      (\<exists>st. run (Dynamic_step C) (start dp) dcs = Inr st \<and>
            Dynamic_for_each C (pool st) func s = Inr (fold func (all_live C (pool st)) s) \<and>
            Dynamic_for_each C (pool st) (\<lambda>ptr visited. visited @ [ptr]) [] =
              Inr (all_live C (pool st)) \<and>
            distinct (all_live C (pool st)) \<and>
            set (all_live C (pool st)) = set (outstanding st) \<and>
            Dynamic_get_stats C (pool st) =
              Inr \<lparr>block_count = length (block_info (pool st)),
                   allocation_count = length (all_live C (pool st))\<rparr> \<and>
            (\<forall>k st1. run (Dynamic_step C) (start dp) (take k dcs) = Inr st1 \<longrightarrow>
               (\<exists>later. block_addrs (pool st) = block_addrs (pool st1) @ later))))"
proof (intro conjI impI)
  assume a: "0 < sizeof_T C \<and>
    FixedMemoryPool_ctor C mem max_entries = Inr fp \<and> fixed_block fp \<noteq> None \<and>
    follows owns (Fixed_step C) (start fp) fcs"
  then obtain st where st: "run (Fixed_step C) (start fp) fcs = Inr st"
    "fixed_inv C (pool st) (outstanding st) \<and> balanced st"
    using fixed_run [of C mem max_entries fp fcs] by blast
  then obtain b where b: "fixed_block (pool st) = Some b" "block_inv b"
    "distinct (outstanding st)" "set (outstanding st) = set (live_ptrs C b)"
    by (auto simp: fixed_inv_def split: option.splits)
  have fe: "Fixed_for_each C (pool st) f x = Inr (fold f (live_ptrs C b) x)" for f :: "addr \<Rightarrow> 't \<Rightarrow> 't" and x
    using b(1,2) by (simp add: Fixed_for_each_def for_each_live_ptrs)
  have d: "distinct (live_ptrs C b)" using a by (simp add: distinct_live_ptrs)
  have "length (outstanding st) = length (live_ptrs C b)"
    using b(3) d b(4) by (rule same_set_length)
  then have gs: "Fixed_get_stats C (pool st) =
      Inr \<lparr>block_count = 1, allocation_count = length (live_ptrs C b)\<rparr>"
    using fixed_get_stats [of C "pool st" "outstanding st"] st(2) a by simp
  show "\<exists>st b. run (Fixed_step C) (start fp) fcs = Inr st \<and>
            fixed_block (pool st) = Some b \<and>
            Fixed_for_each C (pool st) func s = Inr (fold func (live_ptrs C b) s) \<and>
            Fixed_for_each C (pool st) (\<lambda>ptr visited. visited @ [ptr]) [] = Inr (live_ptrs C b) \<and>
            distinct (live_ptrs C b) \<and>
            set (live_ptrs C b) = set (outstanding st) \<and>
            Fixed_get_stats C (pool st) =
              Inr \<lparr>block_count = 1, allocation_count = length (live_ptrs C b)\<rparr>"
    using st(1) b(1,4) fe [of func s] fe [of "\<lambda>ptr visited. visited @ [ptr]" "[]"] d gs
    by (intro exI [of _ st] exI [of _ b]) (simp add: fold_snoc)
next
  assume a: "0 < sizeof_T C \<and> 0 < alignof_T C \<and>
    DynamicMemoryPool_ctor C entries h = Inr dp \<and>
    malloc_ptr h \<noteq> 0 \<and> realloc_ok h \<and> entries \<noteq> 0 \<and>
    follows (Dynamic_pre C) (Dynamic_step C) (start dp) dcs"
  then have cfg: "0 < sizeof_T C" "0 < alignof_T C"
    and ctor: "DynamicMemoryPool_ctor C entries h = Inr dp"
    and host: "malloc_ptr h \<noteq> 0" "realloc_ok h" and nz: "entries \<noteq> 0"
    and fol: "follows (Dynamic_pre C) (Dynamic_step C) (start dp) dcs"
    by simp_all
  from dyn_run [OF ctor host nz cfg fol]
  obtain st where st: "run (Dynamic_step C) (start dp) dcs = Inr st"
    "dyn_inv C (pool st) (outstanding st) \<and> balanced st"
    by blast
  then have inv: "dyn_inv C (pool st) (outstanding st)" by simp
  have fe: "Dynamic_for_each C (pool st) f x = Inr (fold f (all_live C (pool st)) x)"
    for f :: "addr \<Rightarrow> 't \<Rightarrow> 't" and x
    using inv by (rule dyn_for_each)
  have d: "distinct (all_live C (pool st))" using inv cfg by (rule distinct_all_live)
  have sets: "set (all_live C (pool st)) = set (outstanding st)"
    using inv by (simp add: dyn_inv_iff)
  have "length (outstanding st) = length (all_live C (pool st))"
    using inv d sets by (intro same_set_length) (simp_all add: dyn_inv_iff)
  moreover have "length (block_info (pool st)) = unat (num_blocks (pool st))"
    using inv by (simp add: dyn_inv_iff)
  ultimately have gs: "Dynamic_get_stats C (pool st) =
      Inr \<lparr>block_count = length (block_info (pool st)),
           allocation_count = length (all_live C (pool st))\<rparr>"
    using dyn_get_stats [OF inv cfg] by simp
  have order: "\<exists>later. block_addrs (pool st) = block_addrs (pool st1) @ later"
    if r1: "run (Dynamic_step C) (start dp) (take k dcs) = Inr st1" for k st1
  proof -
    have split: "dcs = take k dcs @ drop k dcs" by simp
    have f1: "follows (Dynamic_pre C) (Dynamic_step C) (start dp) (take k dcs)"
      using fol follows_prefix [of "Dynamic_pre C" "Dynamic_step C" "start dp" "take k dcs" "drop k dcs"]
      by simp
    from dyn_run [OF ctor host nz cfg f1] r1
    have I1: "dyn_inv C (pool st1) (outstanding st1) \<and> balanced st1" by simp
    have f2: "follows (Dynamic_pre C) (Dynamic_step C) st1 (drop k dcs)"
      using fol follows_append [OF r1, of "Dynamic_pre C" "drop k dcs"] by simp
    have r2: "run (Dynamic_step C) st1 (drop k dcs) = Inr st"
      using st(1) run_append [of "Dynamic_step C" "start dp" "take k dcs" "drop k dcs"] r1 by simp
    from dyn_run_addrs [OF cfg I1 f2 r2] show ?thesis .
  qed
  show "\<exists>st. run (Dynamic_step C) (start dp) dcs = Inr st \<and>
            Dynamic_for_each C (pool st) func s = Inr (fold func (all_live C (pool st)) s) \<and>
            Dynamic_for_each C (pool st) (\<lambda>ptr visited. visited @ [ptr]) [] =
              Inr (all_live C (pool st)) \<and>
            distinct (all_live C (pool st)) \<and>
            set (all_live C (pool st)) = set (outstanding st) \<and>
            Dynamic_get_stats C (pool st) =
              Inr \<lparr>block_count = length (block_info (pool st)),
                   allocation_count = length (all_live C (pool st))\<rparr> \<and>
            (\<forall>k st1. run (Dynamic_step C) (start dp) (take k dcs) = Inr st1 \<longrightarrow>
               (\<exists>later. block_addrs (pool st) = block_addrs (pool st1) @ later))"
    using st(1) fe [of func s] fe [of "\<lambda>ptr visited. visited @ [ptr]" "[]"] d sets gs order
    by (intro exI [of _ st]) (simp add: fold_snoc)
qed

theorem for_each_visits_live_objects_witness:
  "0 < sizeof_T \<lparr>sizeof_T = 4, alignof_T = 4, NDEBUG = False\<rparr> \<and>
   FixedMemoryPool_ctor \<lparr>sizeof_T = 4, alignof_T = 4, NDEBUG = False\<rparr> 64 2 =
     Inr \<lparr>fixed_block = Some (MemoryPoolBlock_ctor 64 2 :: nat MemoryPoolBlock)\<rparr> \<and>
   fixed_block \<lparr>fixed_block = Some (MemoryPoolBlock_ctor 64 2 :: nat MemoryPoolBlock)\<rparr> \<noteq> None \<and>
   follows owns (Fixed_step \<lparr>sizeof_T = 4, alignof_T = 4, NDEBUG = False\<rparr>)
     (start \<lparr>fixed_block = Some (MemoryPoolBlock_ctor 64 2 :: nat MemoryPoolBlock)\<rparr>)
     [New_object 7 (), New_object 9 (), New_object 5 (), Delete_object 80, New_object 3 ()] \<and>
   (\<exists>st b. run (Fixed_step \<lparr>sizeof_T = 4, alignof_T = 4, NDEBUG = False\<rparr>)
           (start \<lparr>fixed_block = Some (MemoryPoolBlock_ctor 64 2 :: nat MemoryPoolBlock)\<rparr>)
           [New_object 7 (), New_object 9 (), New_object 5 (), Delete_object 80, New_object 3 ()] = Inr st \<and>
         fixed_block (pool st) = Some b \<and>
         Fixed_for_each \<lparr>sizeof_T = 4, alignof_T = 4, NDEBUG = False\<rparr> (pool st) (\<lambda>ptr count. count + 1) (0::nat) =
           Inr (fold (\<lambda>ptr count. count + 1) (live_ptrs \<lparr>sizeof_T = 4, alignof_T = 4, NDEBUG = False\<rparr> b) 0) \<and>
         Fixed_for_each \<lparr>sizeof_T = 4, alignof_T = 4, NDEBUG = False\<rparr> (pool st) (\<lambda>ptr visited. visited @ [ptr]) [] =
           Inr (live_ptrs \<lparr>sizeof_T = 4, alignof_T = 4, NDEBUG = False\<rparr> b) \<and>
         distinct (live_ptrs \<lparr>sizeof_T = 4, alignof_T = 4, NDEBUG = False\<rparr> b) \<and>
         set (live_ptrs \<lparr>sizeof_T = 4, alignof_T = 4, NDEBUG = False\<rparr> b) = set (outstanding st) \<and>
         Fixed_get_stats \<lparr>sizeof_T = 4, alignof_T = 4, NDEBUG = False\<rparr> (pool st) =
           Inr \<lparr>block_count = 1, allocation_count = length (live_ptrs \<lparr>sizeof_T = 4, alignof_T = 4, NDEBUG = False\<rparr> b)\<rparr>) \<and>
   0 < alignof_T \<lparr>sizeof_T = 4, alignof_T = 4, NDEBUG = False\<rparr> \<and>
   DynamicMemoryPool_ctor \<lparr>sizeof_T = 4, alignof_T = 4, NDEBUG = False\<rparr> 1 \<lparr>malloc_ptr = 64, realloc_ok = True\<rparr> =
     Inr (\<lparr>block_info = [\<lparr>num_free = 1, offset = 76, block = MemoryPoolBlock_ctor 64 1\<rparr>],
        num_blocks = 1, free_block_index = 0, pool_entries_per_block = 1\<rparr>
      :: nat DynamicMemoryPool) \<and>
   malloc_ptr \<lparr>malloc_ptr = 64, realloc_ok = True\<rparr> \<noteq> 0 \<and>
   realloc_ok \<lparr>malloc_ptr = 64, realloc_ok = True\<rparr> \<and>
   (1 :: index_t) \<noteq> 0 \<and>
   follows (Dynamic_pre \<lparr>sizeof_T = 4, alignof_T = 4, NDEBUG = False\<rparr>)
     (Dynamic_step \<lparr>sizeof_T = 4, alignof_T = 4, NDEBUG = False\<rparr>)
     (start (\<lparr>block_info = [\<lparr>num_free = 1, offset = 76, block = MemoryPoolBlock_ctor 64 1\<rparr>],
        num_blocks = 1, free_block_index = 0, pool_entries_per_block = 1\<rparr>
      :: nat DynamicMemoryPool))
     [New_object 7 \<lparr>malloc_ptr = 128, realloc_ok = True\<rparr>,
      New_object 9 \<lparr>malloc_ptr = 128, realloc_ok = True\<rparr>,
      Delete_object 76,
      New_object 5 \<lparr>malloc_ptr = 192, realloc_ok = True\<rparr>] \<and>
   (\<exists>st. run (Dynamic_step \<lparr>sizeof_T = 4, alignof_T = 4, NDEBUG = False\<rparr>)
           (start (\<lparr>block_info = [\<lparr>num_free = 1, offset = 76, block = MemoryPoolBlock_ctor 64 1\<rparr>],
        num_blocks = 1, free_block_index = 0, pool_entries_per_block = 1\<rparr>
      :: nat DynamicMemoryPool))
           [New_object 7 \<lparr>malloc_ptr = 128, realloc_ok = True\<rparr>,
      New_object 9 \<lparr>malloc_ptr = 128, realloc_ok = True\<rparr>,
      Delete_object 76,
      New_object 5 \<lparr>malloc_ptr = 192, realloc_ok = True\<rparr>] = Inr st \<and>
         Dynamic_for_each \<lparr>sizeof_T = 4, alignof_T = 4, NDEBUG = False\<rparr> (pool st) (\<lambda>ptr count. count + 1) (0::nat) =
           Inr (fold (\<lambda>ptr count. count + 1) (all_live \<lparr>sizeof_T = 4, alignof_T = 4, NDEBUG = False\<rparr> (pool st)) 0) \<and>
         Dynamic_for_each \<lparr>sizeof_T = 4, alignof_T = 4, NDEBUG = False\<rparr> (pool st) (\<lambda>ptr visited. visited @ [ptr]) [] =
           Inr (all_live \<lparr>sizeof_T = 4, alignof_T = 4, NDEBUG = False\<rparr> (pool st)) \<and>
         distinct (all_live \<lparr>sizeof_T = 4, alignof_T = 4, NDEBUG = False\<rparr> (pool st)) \<and>
         set (all_live \<lparr>sizeof_T = 4, alignof_T = 4, NDEBUG = False\<rparr> (pool st)) = set (outstanding st) \<and>
         Dynamic_get_stats \<lparr>sizeof_T = 4, alignof_T = 4, NDEBUG = False\<rparr> (pool st) =
           Inr \<lparr>block_count = length (block_info (pool st)),
                allocation_count = length (all_live \<lparr>sizeof_T = 4, alignof_T = 4, NDEBUG = False\<rparr> (pool st))\<rparr> \<and>
         (\<forall>k st1. run (Dynamic_step \<lparr>sizeof_T = 4, alignof_T = 4, NDEBUG = False\<rparr>)
                    (start (\<lparr>block_info = [\<lparr>num_free = 1, offset = 76, block = MemoryPoolBlock_ctor 64 1\<rparr>],
        num_blocks = 1, free_block_index = 0, pool_entries_per_block = 1\<rparr>
      :: nat DynamicMemoryPool))
                    (take k [New_object 7 \<lparr>malloc_ptr = 128, realloc_ok = True\<rparr>,
      New_object 9 \<lparr>malloc_ptr = 128, realloc_ok = True\<rparr>,
      Delete_object 76,
      New_object 5 \<lparr>malloc_ptr = 192, realloc_ok = True\<rparr>]) = Inr st1 \<longrightarrow>
            (\<exists>later. block_addrs (pool st) = block_addrs (pool st1) @ later)))"
proof -
  let ?C = "\<lparr>sizeof_T = 4, alignof_T = 4, NDEBUG = False\<rparr>"
  let ?fp = "\<lparr>fixed_block = Some (MemoryPoolBlock_ctor 64 2 :: nat MemoryPoolBlock)\<rparr>"
  let ?fcs = "[New_object 7 (), New_object 9 (), New_object 5 (), Delete_object 80, New_object 3 ()] :: (nat, unit) call list"
  let ?h = "\<lparr>malloc_ptr = 64, realloc_ok = True\<rparr>"
  let ?dp = "(\<lparr>block_info = [\<lparr>num_free = 1, offset = 76, block = MemoryPoolBlock_ctor 64 1\<rparr>],
        num_blocks = 1, free_block_index = 0, pool_entries_per_block = 1\<rparr>
      :: nat DynamicMemoryPool)"
  let ?dcs = "[New_object 7 \<lparr>malloc_ptr = 128, realloc_ok = True\<rparr>,
      New_object 9 \<lparr>malloc_ptr = 128, realloc_ok = True\<rparr>,
      Delete_object 76,
      New_object 5 \<lparr>malloc_ptr = 192, realloc_ok = True\<rparr>] :: (nat, host) call list"
  let ?func = "(\<lambda>ptr count. count + 1) :: addr \<Rightarrow> nat \<Rightarrow> nat"
  have f1: "FixedMemoryPool_ctor ?C 64 2 = Inr ?fp" by code_simp
  have f2: "follows owns (Fixed_step ?C) (start ?fp) ?fcs" by code_simp
  have d1: "DynamicMemoryPool_ctor ?C 1 ?h = Inr ?dp" by code_simp
  have d2: "follows (Dynamic_pre ?C) (Dynamic_step ?C) (start ?dp) ?dcs" by code_simp
  note inst = for_each_visits_live_objects [where C = ?C and mem = 64 and max_entries = 2
      and fp = ?fp and fcs = ?fcs and entries = 1 and h = ?h and dp = ?dp and dcs = ?dcs
      and func = ?func and s = 0]
  have c1: "(\<exists>st b. run (Fixed_step ?C)
           (start ?fp)
           ?fcs = Inr st \<and>
         fixed_block (pool st) = Some b \<and>
         Fixed_for_each ?C (pool st) ?func (0::nat) =
           Inr (fold ?func (live_ptrs ?C b) 0) \<and>
         Fixed_for_each ?C (pool st) (\<lambda>ptr visited. visited @ [ptr]) [] =
           Inr (live_ptrs ?C b) \<and>
         distinct (live_ptrs ?C b) \<and>
         set (live_ptrs ?C b) = set (outstanding st) \<and>
         Fixed_get_stats ?C (pool st) =
           Inr \<lparr>block_count = 1, allocation_count = length (live_ptrs ?C b)\<rparr>)"
    using inst [THEN conjunct1] f1 f2 by simp
  have c2: "(\<exists>st. run (Dynamic_step ?C)
           (start ?dp)
           ?dcs = Inr st \<and>
         Dynamic_for_each ?C (pool st) ?func (0::nat) =
           Inr (fold ?func (all_live ?C (pool st)) 0) \<and>
         Dynamic_for_each ?C (pool st) (\<lambda>ptr visited. visited @ [ptr]) [] =
           Inr (all_live ?C (pool st)) \<and>
         distinct (all_live ?C (pool st)) \<and>
         set (all_live ?C (pool st)) = set (outstanding st) \<and>
         Dynamic_get_stats ?C (pool st) =
           Inr \<lparr>block_count = length (block_info (pool st)),
                allocation_count = length (all_live ?C (pool st))\<rparr> \<and>
         (\<forall>k st1. run (Dynamic_step ?C)
                    (start ?dp)
                    (take k ?dcs) = Inr st1 \<longrightarrow>
            (\<exists>later. block_addrs (pool st) = block_addrs (pool st1) @ later)))"
    using inst [THEN conjunct2] d1 d2 by simp
  show ?thesis using f1 f2 d1 d2 c1 c2 by simp
qed

text \<open>
  The example of the specification, evaluated: five objects are allocated and the
  second and the fourth are released.  \<^verbatim>\<open>for_each\<close> visits the three that remain, in
  the order of their slots (and, in a dynamic pool of two entries per block, of their
  blocks), and \<^verbatim>\<open>allocation_count\<close> is 3.
\<close>

lemma for_each_example:
  "(case run (Fixed_step \<lparr>sizeof_T = 4, alignof_T = 4, NDEBUG = False\<rparr>)
          (start \<lparr>fixed_block = Some (MemoryPoolBlock_ctor 64 5 :: nat MemoryPoolBlock)\<rparr>)
          [New_object 1 (), New_object 2 (), New_object 3 (), New_object 4 (), New_object 5 (),
           Delete_object 96, Delete_object 104] of
      Inl e \<Rightarrow> None
    | Inr st \<Rightarrow> Some (outstanding st,
        Fixed_for_each \<lparr>sizeof_T = 4, alignof_T = 4, NDEBUG = False\<rparr> (pool st)
          (\<lambda>ptr visited. visited @ [ptr]) [],
        Fixed_get_stats \<lparr>sizeof_T = 4, alignof_T = 4, NDEBUG = False\<rparr> (pool st))) =
   Some ([108, 100, 92], Inr [92, 100, 108], Inr \<lparr>block_count = 1, allocation_count = 3\<rparr>)"
  and
  "(case run (Dynamic_step \<lparr>sizeof_T = 4, alignof_T = 4, NDEBUG = False\<rparr>)
          (start (\<lparr>block_info = [\<lparr>num_free = 2, offset = 80, block = MemoryPoolBlock_ctor 64 2\<rparr>],
              num_blocks = 1, free_block_index = 0, pool_entries_per_block = 2\<rparr>
            :: nat DynamicMemoryPool))
          [New_object 1 \<lparr>malloc_ptr = 128, realloc_ok = True\<rparr>,
           New_object 2 \<lparr>malloc_ptr = 128, realloc_ok = True\<rparr>,
           New_object 3 \<lparr>malloc_ptr = 128, realloc_ok = True\<rparr>,
           New_object 4 \<lparr>malloc_ptr = 192, realloc_ok = True\<rparr>,
           New_object 5 \<lparr>malloc_ptr = 192, realloc_ok = True\<rparr>,
           Delete_object 84, Delete_object 148] of
      Inl e \<Rightarrow> None
    | Inr st \<Rightarrow> Some (outstanding st,
        Dynamic_for_each \<lparr>sizeof_T = 4, alignof_T = 4, NDEBUG = False\<rparr> (pool st)
          (\<lambda>ptr visited. visited @ [ptr]) [],
        Dynamic_get_stats \<lparr>sizeof_T = 4, alignof_T = 4, NDEBUG = False\<rparr> (pool st),
        free_block_index (pool st))) =
   Some ([208, 144, 80], Inr [80, 144, 208], Inr \<lparr>block_count = 3, allocation_count = 3\<rparr>, 0)"
  by code_simp+

text \<open>
  C6.  A \<^verbatim>\<open>DynamicMemoryPool\<close> constructed with \<open>B > 0\<close> entries per block receives
  \<open>B + 1\<close> calls of \<^verbatim>\<open>new_object\<close> and no \<^verbatim>\<open>delete_object\<close>, the host allocator not
  failing.  All of them succeed; after the first \<open>B\<close> the pool still has one block,
  and after the last one \<^verbatim>\<open>get_stats().block_count\<close> is 2.
\<close>

theorem second_block_after_filling_first:
  fixes p :: "'a DynamicMemoryPool"
  assumes cfg: "0 < sizeof_T C" "0 < alignof_T C"
    and ctor: "DynamicMemoryPool_ctor C B h0 = Inr p"
    and host0: "malloc_ptr h0 \<noteq> 0" "realloc_ok h0"
    and B: "B \<noteq> 0"
    and n: "length vhs = unat B + 1"
    and fol: "follows (Dynamic_pre C) (Dynamic_step C) (start p)
                (map (\<lambda>(v, h). New_object v h) vhs)"
  shows "\<exists>st1 st.
      run (Dynamic_step C) (start p) (map (\<lambda>(v, h). New_object v h) (take (unat B) vhs)) = Inr st1 \<and>
      n_allocated st1 = unat B \<and>
      Dynamic_get_stats C (pool st1) = Inr \<lparr>block_count = 1, allocation_count = unat B\<rparr> \<and>
      run (Dynamic_step C) (start p) (map (\<lambda>(v, h). New_object v h) vhs) = Inr st \<and>
      n_allocated st = unat B + 1 \<and> n_released st = 0 \<and>
      Dynamic_get_stats C (pool st) = Inr \<lparr>block_count = 2, allocation_count = unat B + 1\<rparr>"
proof -
  let ?call = "\<lambda>(v, h). New_object v h :: ('a, host) call"
  note c = dyn_ctor [OF ctor host0 B]
  have I0: "dyn_inv C (pool (start p)) (outstanding (start p)) \<and> balanced (start p)"
    using c(2) by (simp add: start_def balanced_def)
  have one0: "num_blocks (pool (start p)) = 1" and rel0: "n_released (start p) = 0"
    and epb0: "pool_entries_per_block (pool (start p)) = B" and al0: "n_allocated (start p) = 0"
    by (simp_all add: start_def c(1))
  have "n_allocated (start p) + length (take (unat B) vhs) \<le> unat (pool_entries_per_block (pool (start p)))"
    using n by (simp add: al0 epb0)
  from fill_run [OF cfg I0 one0 rel0 this]
  obtain st1 where st1: "run (Dynamic_step C) (start p) (map ?call (take (unat B) vhs)) = Inr st1"
    "dyn_inv C (pool st1) (outstanding st1) \<and> balanced st1"
    "num_blocks (pool st1) = 1" "n_released st1 = 0"
    "n_allocated st1 = n_allocated (start p) + length (take (unat B) vhs)"
    "pool_entries_per_block (pool st1) = pool_entries_per_block (pool (start p))"
    by blast
  have al1: "n_allocated st1 = unat B" using st1(5) n by (simp add: al0)
  have "length (drop (unat B) vhs) = 1" using n by simp
  then obtain vh where "drop (unat B) vhs = [vh]"
    by (cases "drop (unat B) vhs") auto
  then obtain v h where last: "drop (unat B) vhs = [(v, h)]"
    by (cases vh) auto
  have split: "vhs = take (unat B) vhs @ [(v, h)]"
    using last append_take_drop_id [of "unat B" vhs] by simp
  have "follows (Dynamic_pre C) (Dynamic_step C) (start p)
      (map ?call (take (unat B) vhs) @ [New_object v h])"
    using fol split by (metis (no_types, lifting) list.simps(8,9) map_append old.prod.case)
  with st1(1) have "Dynamic_pre C st1 (New_object v h)"
    by (simp add: follows_append)
  then have host: "host_ok C (pool st1) h" by (simp add: Dynamic_pre_def)
  have full: "n_allocated st1 = unat (pool_entries_per_block (pool st1))"
    using al1 st1(6) epb0 by simp
  from grow_step [OF st1(2) cfg st1(3,4) full host, of v]
  obtain st where st: "Dynamic_step C st1 (New_object v h) = Inr st"
    "dyn_inv C (pool st) (outstanding st) \<and> balanced st"
    "num_blocks (pool st) = 2" "n_released st = 0" "n_allocated st = Suc (n_allocated st1)"
    by blast
  have "run (Dynamic_step C) (start p) (map ?call (take (unat B) vhs) @ [New_object v h]) = Inr st"
    using st1(1) st(1) by (simp add: run_append)
  then have run: "run (Dynamic_step C) (start p) (map ?call vhs) = Inr st"
    using split by (metis (no_types, lifting) list.simps(8,9) map_append old.prod.case)
  have len1: "length (outstanding st1) = unat B"
    using st1(2,4) al1 by (simp add: balanced_def)
  have len: "length (outstanding st) = unat B + 1"
    using st(2,4,5) al1 by (simp add: balanced_def)
  have "Dynamic_get_stats C (pool st1) = Inr \<lparr>block_count = 1, allocation_count = unat B\<rparr>"
    using dyn_get_stats [of C "pool st1" "outstanding st1"] st1(2,3) cfg len1 by simp
  moreover have "Dynamic_get_stats C (pool st) = Inr \<lparr>block_count = 2, allocation_count = unat B + 1\<rparr>"
    using dyn_get_stats [of C "pool st" "outstanding st"] st(2,3) cfg len by simp
  ultimately show ?thesis
    using st1(1) al1 run st(4,5) by auto
qed

theorem second_block_after_filling_first_witness:
  "0 < sizeof_T \<lparr>sizeof_T = 4, alignof_T = 4, NDEBUG = False\<rparr> \<and>
   0 < alignof_T \<lparr>sizeof_T = 4, alignof_T = 4, NDEBUG = False\<rparr> \<and>
   DynamicMemoryPool_ctor \<lparr>sizeof_T = 4, alignof_T = 4, NDEBUG = False\<rparr> 2 \<lparr>malloc_ptr = 64, realloc_ok = True\<rparr> =
     Inr (\<lparr>block_info = [\<lparr>num_free = 2, offset = 80, block = MemoryPoolBlock_ctor 64 2\<rparr>],
        num_blocks = 1, free_block_index = 0, pool_entries_per_block = 2\<rparr>
      :: nat DynamicMemoryPool) \<and>
   malloc_ptr \<lparr>malloc_ptr = 64, realloc_ok = True\<rparr> \<noteq> 0 \<and>
   realloc_ok \<lparr>malloc_ptr = 64, realloc_ok = True\<rparr> \<and>
   (2 :: index_t) \<noteq> 0 \<and>
   length [(7, \<lparr>malloc_ptr = 128, realloc_ok = True\<rparr>),
      (9, \<lparr>malloc_ptr = 128, realloc_ok = True\<rparr>),
      (5, \<lparr>malloc_ptr = 128, realloc_ok = True\<rparr>)] = unat (2 :: index_t) + 1 \<and>
   follows (Dynamic_pre \<lparr>sizeof_T = 4, alignof_T = 4, NDEBUG = False\<rparr>)
     (Dynamic_step \<lparr>sizeof_T = 4, alignof_T = 4, NDEBUG = False\<rparr>)
     (start (\<lparr>block_info = [\<lparr>num_free = 2, offset = 80, block = MemoryPoolBlock_ctor 64 2\<rparr>],
        num_blocks = 1, free_block_index = 0, pool_entries_per_block = 2\<rparr>
      :: nat DynamicMemoryPool))
     (map (\<lambda>(v, h). New_object v h)
       [(7, \<lparr>malloc_ptr = 128, realloc_ok = True\<rparr>),
      (9, \<lparr>malloc_ptr = 128, realloc_ok = True\<rparr>),
      (5, \<lparr>malloc_ptr = 128, realloc_ok = True\<rparr>)]) \<and>
   (\<exists>st1 st.
      run (Dynamic_step \<lparr>sizeof_T = 4, alignof_T = 4, NDEBUG = False\<rparr>)
        (start (\<lparr>block_info = [\<lparr>num_free = 2, offset = 80, block = MemoryPoolBlock_ctor 64 2\<rparr>],
        num_blocks = 1, free_block_index = 0, pool_entries_per_block = 2\<rparr>
      :: nat DynamicMemoryPool))
        (map (\<lambda>(v, h). New_object v h) (take (unat (2 :: index_t))
          [(7, \<lparr>malloc_ptr = 128, realloc_ok = True\<rparr>),
      (9, \<lparr>malloc_ptr = 128, realloc_ok = True\<rparr>),
      (5, \<lparr>malloc_ptr = 128, realloc_ok = True\<rparr>)])) = Inr st1 \<and>
      n_allocated st1 = unat (2 :: index_t) \<and>
      Dynamic_get_stats \<lparr>sizeof_T = 4, alignof_T = 4, NDEBUG = False\<rparr> (pool st1) =
        Inr \<lparr>block_count = 1, allocation_count = unat (2 :: index_t)\<rparr> \<and>
      run (Dynamic_step \<lparr>sizeof_T = 4, alignof_T = 4, NDEBUG = False\<rparr>)
        (start (\<lparr>block_info = [\<lparr>num_free = 2, offset = 80, block = MemoryPoolBlock_ctor 64 2\<rparr>],
        num_blocks = 1, free_block_index = 0, pool_entries_per_block = 2\<rparr>
      :: nat DynamicMemoryPool))
        (map (\<lambda>(v, h). New_object v h)
          [(7, \<lparr>malloc_ptr = 128, realloc_ok = True\<rparr>),
      (9, \<lparr>malloc_ptr = 128, realloc_ok = True\<rparr>),
      (5, \<lparr>malloc_ptr = 128, realloc_ok = True\<rparr>)]) = Inr st \<and>
      n_allocated st = unat (2 :: index_t) + 1 \<and> n_released st = 0 \<and>
      Dynamic_get_stats \<lparr>sizeof_T = 4, alignof_T = 4, NDEBUG = False\<rparr> (pool st) =
        Inr \<lparr>block_count = 2, allocation_count = unat (2 :: index_t) + 1\<rparr>)"
proof -
  let ?C = "\<lparr>sizeof_T = 4, alignof_T = 4, NDEBUG = False\<rparr>"
  let ?h = "\<lparr>malloc_ptr = 64, realloc_ok = True\<rparr>"
  let ?p = "(\<lparr>block_info = [\<lparr>num_free = 2, offset = 80, block = MemoryPoolBlock_ctor 64 2\<rparr>],
        num_blocks = 1, free_block_index = 0, pool_entries_per_block = 2\<rparr>
      :: nat DynamicMemoryPool)"
  let ?vhs = "[(7, \<lparr>malloc_ptr = 128, realloc_ok = True\<rparr>),
      (9, \<lparr>malloc_ptr = 128, realloc_ok = True\<rparr>),
      (5, \<lparr>malloc_ptr = 128, realloc_ok = True\<rparr>)] :: (nat \<times> host) list"
  have h1: "0 < sizeof_T ?C" and h2: "0 < alignof_T ?C" by simp_all
  have h3: "DynamicMemoryPool_ctor ?C 2 ?h = Inr ?p" by code_simp
  have h4: "malloc_ptr ?h \<noteq> 0" and h5: "realloc_ok ?h" and h6: "(2 :: index_t) \<noteq> 0" by simp_all
  have h7: "length ?vhs = unat (2 :: index_t) + 1" by simp
  have h8: "follows (Dynamic_pre ?C) (Dynamic_step ?C) (start ?p) (map (\<lambda>(v, h). New_object v h) ?vhs)"
    by code_simp
  have c: "(\<exists>st1 st.
      run (Dynamic_step ?C)
        (start ?p)
        (map (\<lambda>(v, h). New_object v h) (take (unat (2 :: index_t))
          ?vhs)) = Inr st1 \<and>
      n_allocated st1 = unat (2 :: index_t) \<and>
      Dynamic_get_stats ?C (pool st1) =
        Inr \<lparr>block_count = 1, allocation_count = unat (2 :: index_t)\<rparr> \<and>
      run (Dynamic_step ?C)
        (start ?p)
        (map (\<lambda>(v, h). New_object v h)
          ?vhs) = Inr st \<and>
      n_allocated st = unat (2 :: index_t) + 1 \<and> n_released st = 0 \<and>
      Dynamic_get_stats ?C (pool st) =
        Inr \<lparr>block_count = 2, allocation_count = unat (2 :: index_t) + 1\<rparr>)"
    by (rule second_block_after_filling_first [OF h1 h2 h3 h4 h5 h6 h7 h8])
  show ?thesis using h3 h8 c by simp
qed

text \<open>
  C9.  \<^verbatim>\<open>DynamicMemoryPool::delete_object\<close> with a pointer that lies in the entry
  storage of none of the pool's blocks returns and leaves the pool as it was: the
  blocks with their objects, the \<^verbatim>\<open>BlockInfo\<close> records and \<^verbatim>\<open>free_block_index_\<close>.
\<close>

theorem delete_unowned_is_noop:
  assumes "length (block_info p) = unat (num_blocks p)"
    and "list_all (\<lambda>info. offset info = memory_offset (block info) \<and>
            \<not> in_entries C (pool_entries_per_block p) (block info) ptr) (block_info p)"
  shows "Dynamic_delete_object C p ptr = Inr p"
  unfolding Dynamic_delete_object_def
proof (rule delete_scan_none [OF assms(1)])
  show "\<not> (offset (block_info p ! k) \<le> ptr \<and>
         ptr < offset (block_info p ! k) + sizeof_T C * unat (pool_entries_per_block p))"
    if "k < length (block_info p)" for k
    using assms(2) that by (simp add: list_all_length in_entries_def memory_offset_def)
qed simp

theorem delete_unowned_is_noop_witness:
  "length (block_info (\<lparr>block_info = [\<lparr>num_free = 0, offset = 76,
        block = \<lparr>free_head_index = 1, entries_per_block = 1, this_ptr = 64,
                 indices = [0], memory = [Some (7::nat)]\<rparr>\<rparr>],
      num_blocks = 1, free_block_index = 0, pool_entries_per_block = 1\<rparr>)) =
   unat (num_blocks (\<lparr>block_info = [\<lparr>num_free = 0, offset = 76,
        block = \<lparr>free_head_index = 1, entries_per_block = 1, this_ptr = 64,
                 indices = [0], memory = [Some (7::nat)]\<rparr>\<rparr>],
      num_blocks = 1, free_block_index = 0, pool_entries_per_block = 1\<rparr>)) \<and>
   list_all (\<lambda>info. offset info = memory_offset (block info) \<and>
       \<not> in_entries \<lparr>sizeof_T = 4, alignof_T = 4, NDEBUG = False\<rparr> 1 (block info) 1000)
     [\<lparr>num_free = 0, offset = 76,
        block = \<lparr>free_head_index = 1, entries_per_block = 1, this_ptr = 64,
                 indices = [0], memory = [Some (7::nat)]\<rparr>\<rparr>] \<and>
   Dynamic_delete_object \<lparr>sizeof_T = 4, alignof_T = 4, NDEBUG = False\<rparr>
     \<lparr>block_info = [\<lparr>num_free = 0, offset = 76,
        block = \<lparr>free_head_index = 1, entries_per_block = 1, this_ptr = 64,
                 indices = [0], memory = [Some (7::nat)]\<rparr>\<rparr>],
      num_blocks = 1, free_block_index = 0, pool_entries_per_block = 1\<rparr> 1000 =
   Inr \<lparr>block_info = [\<lparr>num_free = 0, offset = 76,
        block = \<lparr>free_head_index = 1, entries_per_block = 1, this_ptr = 64,
                 indices = [0], memory = [Some (7::nat)]\<rparr>\<rparr>],
      num_blocks = 1, free_block_index = 0, pool_entries_per_block = 1\<rparr>"
proof -
  let ?C = "\<lparr>sizeof_T = 4, alignof_T = 4, NDEBUG = False\<rparr>"
  let ?p = "\<lparr>block_info = [\<lparr>num_free = 0, offset = 76,
        block = \<lparr>free_head_index = 1, entries_per_block = 1, this_ptr = 64,
                 indices = [0], memory = [Some (7::nat)]\<rparr>\<rparr>],
      num_blocks = 1, free_block_index = 0, pool_entries_per_block = 1\<rparr>"
  have h1: "length (block_info ?p) = unat (num_blocks ?p)" by simp
  have h2: "list_all (\<lambda>info. offset info = memory_offset (block info) \<and>
       \<not> in_entries ?C (pool_entries_per_block ?p) (block info) 1000) (block_info ?p)"
    by (simp add: memory_offset_def memory_begin_def indices_begin_def in_entries_def
        sizeof_MemoryPoolBlock_def sizeof_index_t_def)
  from delete_unowned_is_noop [OF h1 h2] h1 h2 show ?thesis by simp
qed

text \<open>
  C8.  The claim that a failure of the host allocator is reported by returning
  \<^verbatim>\<open>nullptr\<close> with the pool left consistent fails when \<^verbatim>\<open>realloc\<close> fails.  A pool
  with one entry per block holds one live object; the next \<^verbatim>\<open>new_object\<close> needs a
  second block, \<^verbatim>\<open>aligned_malloc\<close> returns memory at 128 and \<^verbatim>\<open>realloc\<close> returns
  \<^verbatim>\<open>nullptr\<close>: \<^verbatim>\<open>add_block\<close> stores that result in \<^verbatim>\<open>block_info_\<close> and writes the new
  record through it, with or without \<^verbatim>\<open>NDEBUG\<close>; the constructor does the same.  When
  \<^verbatim>\<open>aligned_malloc\<close> fails instead, the call returns \<^verbatim>\<open>nullptr\<close> only with \<^verbatim>\<open>NDEBUG\<close>
  (and leaves \<^verbatim>\<open>free_block_index_ == num_blocks_\<close>); with assertions compiled in,
  the assertions of \<^verbatim>\<open>create\<close> dereference the null block pointer.
\<close>

theorem realloc_failure_not_reported:
  "(\<forall>ndebug.
      DynamicMemoryPool_ctor \<lparr>sizeof_T = 4, alignof_T = 4, NDEBUG = ndebug\<rparr> 1
        \<lparr>malloc_ptr = 64, realloc_ok = True\<rparr> =
      Inr (\<lparr>block_info = [\<lparr>num_free = 1, offset = 76, block = MemoryPoolBlock_ctor 64 1\<rparr>],
            num_blocks = 1, free_block_index = 0, pool_entries_per_block = 1\<rparr>
           :: nat DynamicMemoryPool) \<and>
      Dynamic_new_object \<lparr>sizeof_T = 4, alignof_T = 4, NDEBUG = ndebug\<rparr>
        (\<lparr>block_info = [\<lparr>num_free = 1, offset = 76, block = MemoryPoolBlock_ctor 64 1\<rparr>],
          num_blocks = 1, free_block_index = 0, pool_entries_per_block = 1\<rparr>
         :: nat DynamicMemoryPool) 7 \<lparr>malloc_ptr = 128, realloc_ok = True\<rparr> =
      Inr (76, \<lparr>block_info = [\<lparr>num_free = 0, offset = 76,
                  block = \<lparr>free_head_index = 1, entries_per_block = 1, this_ptr = 64,
                           indices = [0], memory = [Some 7]\<rparr>\<rparr>],
                num_blocks = 1, free_block_index = 0, pool_entries_per_block = 1\<rparr>) \<and>
      Dynamic_new_object \<lparr>sizeof_T = 4, alignof_T = 4, NDEBUG = ndebug\<rparr>
        \<lparr>block_info = [\<lparr>num_free = 0, offset = 76,
            block = \<lparr>free_head_index = 1, entries_per_block = 1, this_ptr = 64,
                     indices = [0], memory = [Some (7::nat)]\<rparr>\<rparr>],
          num_blocks = 1, free_block_index = 0, pool_entries_per_block = 1\<rparr>
        9 \<lparr>malloc_ptr = 128, realloc_ok = False\<rparr> =
      Inl NullDereference \<and>
      (DynamicMemoryPool_ctor \<lparr>sizeof_T = 4, alignof_T = 4, NDEBUG = ndebug\<rparr> 1
        \<lparr>malloc_ptr = 64, realloc_ok = False\<rparr> :: error + nat DynamicMemoryPool) =
      Inl NullDereference) \<and>
   Dynamic_new_object \<lparr>sizeof_T = 4, alignof_T = 4, NDEBUG = False\<rparr>
     \<lparr>block_info = [\<lparr>num_free = 0, offset = 76,
         block = \<lparr>free_head_index = 1, entries_per_block = 1, this_ptr = 64,
                  indices = [0], memory = [Some (7::nat)]\<rparr>\<rparr>],
       num_blocks = 1, free_block_index = 0, pool_entries_per_block = 1\<rparr>
     9 \<lparr>malloc_ptr = 0, realloc_ok = True\<rparr> =
   Inl NullDereference \<and>
   Dynamic_new_object \<lparr>sizeof_T = 4, alignof_T = 4, NDEBUG = True\<rparr>
     \<lparr>block_info = [\<lparr>num_free = 0, offset = 76,
         block = \<lparr>free_head_index = 1, entries_per_block = 1, this_ptr = 64,
                  indices = [0], memory = [Some (7::nat)]\<rparr>\<rparr>],
       num_blocks = 1, free_block_index = 0, pool_entries_per_block = 1\<rparr>
     9 \<lparr>malloc_ptr = 0, realloc_ok = True\<rparr> =
   Inr (0, \<lparr>block_info = [\<lparr>num_free = 0, offset = 76,
         block = \<lparr>free_head_index = 1, entries_per_block = 1, this_ptr = 64,
                  indices = [0], memory = [Some (7::nat)]\<rparr>\<rparr>],
       num_blocks = 1, free_block_index = 1, pool_entries_per_block = 1\<rparr>)"
  by (intro conjI) code_simp+

end
